theory Spec2Isabelle
  imports Complex_Main
begin

section \<open>The battle engine of \<^verbatim>\<open>ballsdex/core/battle.py\<close>\<close>

text \<open>
  The engine consists of the dataclass \<^verbatim>\<open>Participant\<close>, the static method
  \<^verbatim>\<open>AbilityProcessor.apply_abilities\<close> and the class \<^verbatim>\<open>TeamBattle\<close>
  with \<^verbatim>\<open>__init__\<close>, \<^verbatim>\<open>_active\<close> and \<^verbatim>\<open>run\<close>.

  Modelling conventions.
  \<^item> Python \<^verbatim>\<open>int\<close> is \<open>int\<close>. Python \<^verbatim>\<open>float\<close> values (ability values,
    \<^verbatim>\<open>shield_percent\<close>, \<^verbatim>\<open>extra_damage_multiplier\<close>) are exact real numbers: products
    are not rounded to binary64. The concrete evaluations below use values (1/2,
    -1/2, small integers) on which the binary64 result and the exact one agree.
  \<^item> \<^verbatim>\<open>int(x)\<close> on a float truncates toward zero; this is \<open>py_int\<close>.
  \<^item> A \<^verbatim>\<open>Participant\<close> is mutated in place through the references
    \<^verbatim>\<open>a_active\<close> and \<^verbatim>\<open>b_active\<close>. A reference is an index into the team list
    that owns the object, a mutation is a list update at that index. All
    participants are distinct objects (each is built by its own constructor call
    in \<^verbatim>\<open>make_participants\<close>), so no two references alias.
  \<^item> A transcript line is a value of \<open>log_line\<close>: one constructor for each
    f-string or literal appended to \<^verbatim>\<open>logs\<close>, carrying the values that are
    formatted into it.
\<close>

subsection \<open>Data model\<close>

datatype hook = on_enter | on_attack | on_defend | on_exit

text \<open>The value of \<^verbatim>\<open>entry.get("type")\<close>; \<open>unknown\<close> carries any other value.\<close>

datatype ability_type = damage_multiplier | extra_damage | heal | shield | unknown string

text \<open>An entry of a hook list; \<open>entry_value\<close> is \<open>None\<close> when the key \<^verbatim>\<open>"value"\<close> is absent.\<close>

datatype ability_entry = Entry (entry_type: ability_type) (entry_value: "real option")

text \<open>
  What the engine reads of a \<^verbatim>\<open>BallInstance\<close>: \<^verbatim>\<open>health\<close>, \<^verbatim>\<open>attack\<close>,
  \<^verbatim>\<open>countryball.capacity_logic\<close> (a dict from hook to entry list) and
  \<^verbatim>\<open>short_description()\<close>.
\<close>

record ball_instance =
  health :: int
  attack :: int
  capacity_logic :: "hook \<rightharpoonup> ability_entry list"
  short_description :: string

record participant =
  inst :: ball_instance
  max_hp :: int
  current_hp :: int
  shield_percent :: real
  extra_damage_multiplier :: real
  extra_flat_damage :: int

datatype log_line =
    UsesDamage string real               \<comment> \<open>\<^verbatim>\<open>"{actor} uses damage x{mult}."\<close>\<close>
  | GainsExtra string int                \<comment> \<open>\<^verbatim>\<open>"{actor} gains +{amt} extra damage this attack."\<close>\<close>
  | Heals string int                     \<comment> \<open>\<^verbatim>\<open>"{actor} heals {heal} HP."\<close>\<close>
  | GrantsShield string int string       \<comment> \<open>\<^verbatim>\<open>"{actor} grants a {int(pct*100)}% shield to {target}."\<close>\<close>
  | UnknownAbility string                \<comment> \<open>\<^verbatim>\<open>"Unknown ability type: {t}"\<close>\<close>
  | TurnHeader nat string string         \<comment> \<open>\<^verbatim>\<open>"-- Turn {turn}: {a} vs {b} --"\<close>\<close>
  | Absorbs string int                   \<comment> \<open>\<^verbatim>\<open>"{b} absorbs {reduction} damage with shield."\<close>\<close>
  | Deals string int string int          \<comment> \<open>\<^verbatim>\<open>"{a} deals {dmg} damage. {b} HP is now {max(hp,0)}."\<close>\<close>
  | Defeated string                      \<comment> \<open>\<^verbatim>\<open>"{b} has been defeated."\<close>\<close>
  | TurnLimit                            \<comment> \<open>\<^verbatim>\<open>"Turn limit reached, ending in a draw."\<close>\<close>
  | TeamAWins                            \<comment> \<open>\<^verbatim>\<open>"Team A wins!"\<close>\<close>
  | TeamBWins                            \<comment> \<open>\<^verbatim>\<open>"Team B wins!"\<close>\<close>
  | DrawLine                             \<comment> \<open>\<^verbatim>\<open>"Battle ended in a draw."\<close>\<close>

text \<open>Python's \<^verbatim>\<open>int(x)\<close> for a float \<open>x\<close>: truncation toward zero.\<close>

definition py_int :: "real \<Rightarrow> int" where
  "py_int x = (if 0 \<le> x then \<lfloor>x\<rfloor> else \<lceil>x\<rceil>)"

text \<open>\<^verbatim>\<open>entry.get("value", d)\<close>.\<close>

definition get_value :: "ability_entry \<Rightarrow> real \<Rightarrow> real" where
  "get_value entry d = (case entry_value entry of None \<Rightarrow> d | Some v \<Rightarrow> v)"

definition name :: "participant \<Rightarrow> string" where
  "name p = short_description (inst p)"

subsection \<open>AbilityProcessor.apply_abilities\<close>

text \<open>
  One pass of the body of \<^verbatim>\<open>for entry in logic.get(when, [])\<close>: the new actor, the
  new target and the lines appended. \<^verbatim>\<open>if target:\<close> tests a dataclass instance, which
  is falsy only when it is \<^verbatim>\<open>None\<close>.
\<close>

definition apply_entry ::
  "ability_entry \<Rightarrow> participant \<Rightarrow> participant option
     \<Rightarrow> participant \<times> participant option \<times> log_line list" where
  "apply_entry entry actor target =
     (case entry_type entry of
        damage_multiplier \<Rightarrow>
          (let mult = get_value entry 1 in
           (actor\<lparr>extra_damage_multiplier := extra_damage_multiplier actor * mult\<rparr>,
            target, [UsesDamage (name actor) mult]))
      | extra_damage \<Rightarrow>
          (let amt = py_int (get_value entry 0) in
           (actor\<lparr>extra_flat_damage := extra_flat_damage actor + amt\<rparr>,
            target, [GainsExtra (name actor) amt]))
      | heal \<Rightarrow>
          (let pct = get_value entry 0;
               heal_amt = max 1 (py_int (of_int (max_hp actor) * pct)) in
           (actor\<lparr>current_hp := min (current_hp actor + heal_amt) (max_hp actor)\<rparr>,
            target, [Heals (name actor) heal_amt]))
      | shield \<Rightarrow>
          (let pct = get_value entry 0 in
           (case target of
              None \<Rightarrow> (actor, None, [])
            | Some t \<Rightarrow>
                (actor, Some (t\<lparr>shield_percent := max (shield_percent t) pct\<rparr>),
                 [GrantsShield (name actor) (py_int (pct * 100)) (name t)])))
      | unknown t \<Rightarrow> (actor, target, [UnknownAbility t]))"

fun apply_entries ::
  "ability_entry list \<Rightarrow> participant \<Rightarrow> participant option
     \<Rightarrow> participant \<times> participant option \<times> log_line list" where
  "apply_entries [] actor target = (actor, target, [])"
| "apply_entries (e # es) actor target =
     (case apply_entry e actor target of
        (actor1, target1, l1) \<Rightarrow>
          (case apply_entries es actor1 target1 of
             (actor2, target2, l2) \<Rightarrow> (actor2, target2, l1 @ l2)))"

text \<open>\<^verbatim>\<open>logic = capacity_logic or {}\<close>, then \<^verbatim>\<open>logic.get(when, [])\<close>.\<close>

definition hook_entries :: "participant \<Rightarrow> hook \<Rightarrow> ability_entry list" where
  "hook_entries actor when =
     (case capacity_logic (inst actor) when of None \<Rightarrow> [] | Some es \<Rightarrow> es)"

definition apply_abilities ::
  "hook \<Rightarrow> participant \<Rightarrow> participant option
     \<Rightarrow> participant \<times> participant option \<times> log_line list" where
  "apply_abilities when actor target = apply_entries (hook_entries actor when) actor target"

subsection \<open>TeamBattle\<close>

datatype error = ValueError string

record team_battle =
  team_a :: "participant list"
  team_b :: "participant list"

definition make_participants :: "ball_instance list \<Rightarrow> participant list" where
  "make_participants team =
     map (\<lambda>i. \<lparr>inst = i, max_hp = health i, current_hp = health i,
               shield_percent = 0, extra_damage_multiplier = 1, extra_flat_damage = 0\<rparr>)
         (take 3 team)"

definition TeamBattle :: "ball_instance list \<Rightarrow> ball_instance list \<Rightarrow> error + team_battle" where
  "TeamBattle ta tb =
     (if ta = [] \<or> tb = []
      then Inl (ValueError ''Both teams must have at least one BallInstance'')
      else Inr \<lparr>team_a = make_participants ta, team_b = make_participants tb\<rparr>)"

text \<open>\<^verbatim>\<open>_active\<close>: the reference to the first participant with positive HP, as its index.\<close>

fun active :: "participant list \<Rightarrow> nat option" where
  "active [] = None"
| "active (p # ps) = (if 0 < current_hp p then Some 0 else map_option Suc (active ps))"

text \<open>
  A call \<^verbatim>\<open>apply_abilities(when, actor, target)\<close> where \<open>actor\<close> is the object at index
  \<open>i\<close> of one team and \<open>target\<close> the object at index \<open>j\<close> of the other team (or
  \<^verbatim>\<open>None\<close>): both objects are written back in place.
\<close>

definition fire ::
  "hook \<Rightarrow> participant list \<Rightarrow> nat \<Rightarrow> participant list \<Rightarrow> nat option
     \<Rightarrow> participant list \<times> participant list \<times> log_line list" where
  "fire when acting i other jo =
     (case apply_abilities when (acting ! i) (map_option (\<lambda>j. other ! j) jo) of
        (actor', target', l) \<Rightarrow>
          (acting[i := actor'],
           (case (jo, target') of (Some j, Some t) \<Rightarrow> other[j := t] | _ \<Rightarrow> other),
           l))"

text \<open>Line 102 (and 131): the damage before the shield.\<close>

definition base_damage :: "participant \<Rightarrow> int" where
  "base_damage a =
     py_int (of_int (attack (inst a)) * extra_damage_multiplier a) + extra_flat_damage a"

text \<open>Lines 105-110 (and 134-139): the shield reduction and the floor of 1.\<close>

definition shield_reduction :: "int \<Rightarrow> real \<Rightarrow> int" where
  "shield_reduction dmg sp = py_int (of_int dmg * sp)"

definition final_damage :: "int \<Rightarrow> real \<Rightarrow> int" where
  "final_damage dmg sp =
     max 1 (if sp \<noteq> 0 then dmg - shield_reduction dmg sp else dmg)"

text \<open>
  Lines 105-115 (and 134-144): the attack of \<open>a\<close> on \<open>b\<close> resolves, with \<open>dmg\<close> the value
  computed at line 102.
\<close>

definition resolve_attack ::
  "int \<Rightarrow> participant \<Rightarrow> participant \<Rightarrow> participant \<times> participant \<times> log_line list" where
  "resolve_attack dmg a b =
     (let l = (if shield_percent b \<noteq> 0
               then [Absorbs (name b) (shield_reduction dmg (shield_percent b))] else []);
          dmg' = final_damage dmg (shield_percent b);
          b' = b\<lparr>current_hp := current_hp b - dmg'\<rparr>;
          a' = a\<lparr>extra_damage_multiplier := 1, extra_flat_damage := 0\<rparr>
      in (a', b', l @ [Deals (name a) dmg' (name b) (max (current_hp b') 0)]))"

text \<open>
  Lines 101-122, and lines 130-151 with the roles of the teams swapped: the
  participant at index \<open>i\<close> of \<open>X\<close> attacks the participant at index \<open>j\<close> of \<open>Y\<close>.
\<close>

definition attack_half ::
  "participant list \<Rightarrow> nat \<Rightarrow> participant list \<Rightarrow> nat
     \<Rightarrow> participant list \<times> participant list \<times> log_line list" where
  "attack_half X i Y j =
     (case fire on_attack X i Y (Some j) of
        (X1, Y1, l1) \<Rightarrow>
          (let dmg = base_damage (X1 ! i) in
           (case fire on_defend Y1 j X1 (Some i) of
              (Y2, X2, l2) \<Rightarrow>
                (case resolve_attack dmg (X2 ! i) (Y2 ! j) of
                   (a3, b3, l3) \<Rightarrow>
                     (let X3 = X2[i := a3]; Y3 = Y2[j := b3] in
                      if current_hp b3 \<le> 0 then
                        (case fire on_exit Y3 j X3 (Some i) of
                           (Y4, X4, l4) \<Rightarrow>
                             (case active Y4 of
                                None \<Rightarrow> (X4, Y4, l1 @ l2 @ l3 @ [Defeated (name b3)] @ l4)
                              | Some k \<Rightarrow>
                                  (case fire on_enter Y4 k X4 (Some i) of
                                     (Y5, X5, l5) \<Rightarrow>
                                       (X5, Y5, l1 @ l2 @ l3 @ [Defeated (name b3)] @ l4 @ l5))))
                      else (X3, Y3, l1 @ l2 @ l3))))))"

text \<open>
  Lines 93-152, one pass of the body of \<^verbatim>\<open>while True\<close> up to \<^verbatim>\<open>turn += 1\<close>. The flag
  is \<open>False\<close> when the pass left the loop through one of the two \<^verbatim>\<open>break\<close>s at lines
  96 and 128, and \<open>True\<close> when it reached line 153.
\<close>

definition turn_body :: "nat \<Rightarrow> team_battle \<Rightarrow> team_battle \<times> log_line list \<times> bool" where
  "turn_body turn s =
     (case (active (team_a s), active (team_b s)) of
        (Some i, Some j) \<Rightarrow>
          (let hdr = TurnHeader turn (name (team_a s ! i)) (name (team_b s ! j)) in
           (case attack_half (team_a s) i (team_b s) j of
              (A1, B1, l1) \<Rightarrow>
                (case (active A1, active B1) of
                   (Some i', Some j') \<Rightarrow>
                     (case attack_half B1 j' A1 i' of
                        (B2, A2, l2) \<Rightarrow>
                          (\<lparr>team_a = A2, team_b = B2\<rparr>, hdr # l1 @ l2, True))
                 | _ \<Rightarrow> (\<lparr>team_a = A1, team_b = B1\<rparr>, hdr # l1, False))))
      | _ \<Rightarrow> (s, [], False))"

text \<open>Lines 92-156: the loop, from the value \<open>turn\<close> of the counter.\<close>

function turn_loop :: "nat \<Rightarrow> team_battle \<Rightarrow> team_battle \<times> log_line list" where
  "turn_loop turn s =
     (let r = turn_body turn s; s' = fst r; l = fst (snd r) in
      if \<not> snd (snd r) then (s', l)
      else if 1000 < turn + 1 then (s', l @ [TurnLimit])
      else (let r' = turn_loop (turn + 1) s' in (fst r', l @ snd r')))"
  by pat_completeness auto
termination
  by (relation "measure (\<lambda>(turn, s). 1001 - turn)") auto

declare turn_loop.simps [simp del]

text \<open>\<^verbatim>\<open>any(p.current_hp > 0 for p in team)\<close>.\<close>

definition alive :: "participant list \<Rightarrow> bool" where
  "alive team = list_ex (\<lambda>p. 0 < current_hp p) team"

definition verdict :: "team_battle \<Rightarrow> log_line" where
  "verdict s =
     (let a_alive = alive (team_a s); b_alive = alive (team_b s) in
      if a_alive \<and> \<not> b_alive then TeamAWins
      else if b_alive \<and> \<not> a_alive then TeamBWins
      else DrawLine)"

text \<open>Lines 84-90: \<^verbatim>\<open>on_enter\<close> for the initial participants.\<close>

definition enter_initial :: "team_battle \<Rightarrow> team_battle \<times> log_line list" where
  "enter_initial s =
     (let a_active = active (team_a s); b_active = active (team_b s) in
      (case (case a_active of
               Some i \<Rightarrow> fire on_enter (team_a s) i (team_b s) b_active
             | None \<Rightarrow> (team_a s, team_b s, [])) of
         (A1, B1, l1) \<Rightarrow>
           (case (case b_active of
                    Some j \<Rightarrow> fire on_enter B1 j A1 a_active
                  | None \<Rightarrow> (B1, A1, [])) of
              (B2, A2, l2) \<Rightarrow> (\<lparr>team_a = A2, team_b = B2\<rparr>, l1 @ l2))))"

text \<open>\<^verbatim>\<open>run\<close>, with the final state of the two teams beside the transcript.\<close>

definition run_state :: "team_battle \<Rightarrow> team_battle \<times> log_line list" where
  "run_state s =
     (case enter_initial s of
        (s1, l1) \<Rightarrow>
          (case turn_loop 1 s1 of
             (s2, l2) \<Rightarrow> (s2, l1 @ l2 @ [verdict s2])))"

definition run :: "team_battle \<Rightarrow> log_line list" where
  "run s = snd (run_state s)"

subsection \<open>The damage formula in the words of the specification\<close>


subsection \<open>Concrete entities\<close>

definition ball :: "string \<Rightarrow> int \<Rightarrow> int \<Rightarrow> (hook \<rightharpoonup> ability_entry list) \<Rightarrow> ball_instance" where
  "ball n h a l = \<lparr>health = h, attack = a, capacity_logic = l, short_description = n\<rparr>"

text \<open>HP 30, ATK 10, no abilities.\<close>

definition c_plain :: ball_instance where
  "c_plain = ball ''P'' 30 10 Map.empty"

text \<open>The defender of \<^verbatim>\<open>test_ability_extra_damage_and_shield\<close>: a 50% shield in \<^verbatim>\<open>on_defend\<close>.\<close>

definition c_shielder :: ball_instance where
  "c_shielder = ball ''S'' 30 4 [on_defend \<mapsto> [Entry shield (Some (1/2))]]"

text \<open>ATK 5 with \<^verbatim>\<open>on_attack: [damage_multiplier -0.5, extra_damage 10]\<close>.\<close>

definition c_negmult :: ball_instance where
  "c_negmult = ball ''N'' 20 5
     [on_attack \<mapsto> [Entry damage_multiplier (Some (-1/2)), Entry extra_damage (Some 10)]]"

subsection \<open>Specification predicates\<close>

text \<open>
  \<open>same_roster X X'\<close>: the team \<open>X'\<close> holds the participants of \<open>X\<close> at the same
  positions, for the same entities and with the same \<open>max_hp\<close>, and no
  \<open>shield_percent\<close> is lower in \<open>X'\<close> than in \<open>X\<close>.
\<close>

definition same_roster :: "participant list \<Rightarrow> participant list \<Rightarrow> bool" where
  "same_roster X X' \<longleftrightarrow>
     length X' = length X \<and>
     (\<forall>k<length X. inst (X' ! k) = inst (X ! k) \<and> max_hp (X' ! k) = max_hp (X ! k)
                    \<and> shield_percent (X ! k) \<le> shield_percent (X' ! k))"

text \<open>
  \<open>hp_ok\<close>: the HP bound of a participant, with \<open>max_hp\<close> still the health of its
  entity. \<open>battle_ok\<close>: every participant of both teams satisfies it.
\<close>

definition hp_ok :: "participant \<Rightarrow> bool" where
  "hp_ok p \<longleftrightarrow> current_hp p \<le> max_hp p \<and> max_hp p = health (inst p)"

definition team_ok :: "participant list \<Rightarrow> bool" where
  "team_ok X \<longleftrightarrow> (\<forall>k<length X. hp_ok (X ! k))"

definition battle_ok :: "team_battle \<Rightarrow> bool" where
  "battle_ok s \<longleftrightarrow> team_ok (team_a s) \<and> team_ok (team_b s)"

text \<open>
  The lines the loop itself appends, apart from those of the hooks and of the
  exchanges: the turn headers and the turn-limit line. \<open>turns\<close> counts the headers of a
  transcript, one for each turn begun.
\<close>

fun loop_line :: "log_line \<Rightarrow> bool" where
  "loop_line (TurnHeader n a b) = True"
| "loop_line TurnLimit = True"
| "loop_line x = False"



subsection \<open>Long duels\<close>

text \<open>
  \<open>at_hp b h\<close> is the participant built for the entity \<open>b\<close> once its \<open>current_hp\<close>
  is \<open>h\<close> and nothing else has changed; \<open>duel A x B y\<close> is the battle of one such
  participant on each side. A \<open>plain_striker\<close> has ATK 1 and no abilities.
\<close>

definition at_hp :: "ball_instance \<Rightarrow> int \<Rightarrow> participant" where
  "at_hp b h = \<lparr>inst = b, max_hp = health b, current_hp = h,
                shield_percent = 0, extra_damage_multiplier = 1, extra_flat_damage = 0\<rparr>"

definition duel :: "ball_instance \<Rightarrow> int \<Rightarrow> ball_instance \<Rightarrow> int \<Rightarrow> team_battle" where
  "duel A x B y = \<lparr>team_a = [at_hp A x], team_b = [at_hp B y]\<rparr>"

text \<open>HP 1000 and HP 2000, both ATK 1, no abilities.\<close>

definition c_long_a :: ball_instance where
  "c_long_a = ball ''A'' 1000 1 Map.empty"

definition c_long_b :: ball_instance where
  "c_long_b = ball ''B'' 2000 1 Map.empty"

definition plain_striker :: "ball_instance \<Rightarrow> bool" where
  "plain_striker b \<longleftrightarrow> capacity_logic b = Map.empty \<and> attack b = 1"

subsection \<open>Battles that end before the turn limit\<close>

text \<open>
  \<open>no_heal b\<close>: no hook of the entity \<open>b\<close> holds a heal entry. \<open>live_hp X\<close>: the HP
  that the team \<open>X\<close> still has to lose, the sum of the positive \<open>current_hp\<close> of its
  participants.
\<close>

definition no_heal :: "ball_instance \<Rightarrow> bool" where
  "no_heal b \<longleftrightarrow>
     list_all (\<lambda>w. list_all (\<lambda>e. entry_type e \<noteq> heal)
                      (case capacity_logic b w of None \<Rightarrow> [] | Some es \<Rightarrow> es))
              [on_enter, on_attack, on_defend, on_exit]"

definition team_no_heal :: "participant list \<Rightarrow> bool" where
  "team_no_heal X \<longleftrightarrow> (\<forall>k<length X. no_heal (inst (X ! k)))"

definition live_hp :: "participant list \<Rightarrow> int" where
  "live_hp X = sum_list (map (\<lambda>p. max 0 (current_hp p)) X)"

section \<open>Properties\<close>

lemmas ev = ball_def c_plain_def c_shielder_def c_negmult_def make_participants_def
  fire_def apply_abilities_def hook_entries_def apply_entry_def get_value_def
  attack_half_def resolve_attack_def base_damage_def final_damage_def shield_reduction_def
  py_int_def name_def Let_def

subsection \<open>Truncation and floor\<close>



subsection \<open>What a hook pass can change\<close>

text \<open>
  A pass over the entries of a hook changes, of the actor, only \<open>current_hp\<close>,
  \<open>extra_damage_multiplier\<close> and \<open>extra_flat_damage\<close>, and of the target only
  \<open>shield_percent\<close>, which it never lowers.
\<close>

lemma apply_entry_actor:
  "apply_entry e a t = (a', t', l) \<Longrightarrow>
     inst a' = inst a \<and> max_hp a' = max_hp a \<and> shield_percent a' = shield_percent a"
  by (auto simp: apply_entry_def Let_def split: ability_type.splits option.splits)

lemma apply_entry_target:
  "apply_entry e a t = (a', t', l) \<Longrightarrow>
     (case t of None \<Rightarrow> t' = None
      | Some x \<Rightarrow> (\<exists>y. t' = Some y \<and> inst y = inst x \<and> max_hp y = max_hp x
                        \<and> current_hp y = current_hp x
                        \<and> extra_damage_multiplier y = extra_damage_multiplier x
                        \<and> extra_flat_damage y = extra_flat_damage x
                        \<and> shield_percent x \<le> shield_percent y))"
  by (auto simp: apply_entry_def Let_def split: ability_type.splits option.splits)

lemma apply_entries_actor:
  "apply_entries es a t = (a', t', l) \<Longrightarrow>
     inst a' = inst a \<and> max_hp a' = max_hp a \<and> shield_percent a' = shield_percent a"
proof (induction es arbitrary: a t a' t' l)
  case Nil
  then show ?case by simp
next
  case (Cons e es)
  obtain a1 t1 l1 where e: "apply_entry e a t = (a1, t1, l1)"
    by (cases "apply_entry e a t") auto
  obtain a2 t2 l2 where r: "apply_entries es a1 t1 = (a2, t2, l2)"
    by (cases "apply_entries es a1 t1") auto
  from Cons.prems e r have eq: "a' = a2" by simp
  from apply_entry_actor[OF e] Cons.IH[OF r] eq show ?case by simp
qed

lemma apply_entries_target:
  "apply_entries es a t = (a', t', l) \<Longrightarrow>
     (case t of None \<Rightarrow> t' = None
      | Some x \<Rightarrow> (\<exists>y. t' = Some y \<and> inst y = inst x \<and> max_hp y = max_hp x
                        \<and> current_hp y = current_hp x
                        \<and> extra_damage_multiplier y = extra_damage_multiplier x
                        \<and> extra_flat_damage y = extra_flat_damage x
                        \<and> shield_percent x \<le> shield_percent y))"
proof (induction es arbitrary: a t a' t' l)
  case Nil
  then show ?case by (simp split: option.splits)
next
  case (Cons e es)
  obtain a1 t1 l1 where e: "apply_entry e a t = (a1, t1, l1)"
    by (cases "apply_entry e a t") auto
  obtain a2 t2 l2 where r: "apply_entries es a1 t1 = (a2, t2, l2)"
    by (cases "apply_entries es a1 t1") auto
  from Cons.prems e r have eq: "t' = t2" by simp
  from apply_entry_target[OF e] Cons.IH[OF r] eq show ?case
    by (fastforce split: option.splits)
qed

subsection \<open>Construction\<close>

text \<open>
  C9. Constructing a \<^verbatim>\<open>TeamBattle\<close> with an empty list for either team fails with
  the \<^verbatim>\<open>ValueError\<close> of line 62, before any participant is built; with both lists
  non-empty the construction succeeds and builds the two teams.
\<close>

theorem construction_requires_nonempty_teams:
  "(ta = [] \<or> tb = [] \<longrightarrow>
      TeamBattle ta tb = Inl (ValueError ''Both teams must have at least one BallInstance''))
   \<and> (ta \<noteq> [] \<and> tb \<noteq> [] \<longrightarrow>
        TeamBattle ta tb = Inr \<lparr>team_a = make_participants ta, team_b = make_participants tb\<rparr>)"
  by (simp add: TeamBattle_def)

theorem construction_requires_nonempty_teams_witness:
  "TeamBattle [] [c_plain] = Inl (ValueError ''Both teams must have at least one BallInstance'')
   \<and> TeamBattle [c_plain] [] = Inl (ValueError ''Both teams must have at least one BallInstance'')
   \<and> TeamBattle [c_plain] [c_shielder] =
        Inr \<lparr>team_a = make_participants [c_plain], team_b = make_participants [c_shielder]\<rparr>"
  using construction_requires_nonempty_teams [of "[]" "[c_plain]"]
        construction_requires_nonempty_teams [of "[c_plain]" "[]"]
        construction_requires_nonempty_teams [of "[c_plain]" "[c_shielder]"]
  by simp

subsection \<open>Shield grants\<close>

text \<open>
  C7. A shield entry sets the target's \<open>shield_percent\<close> to the maximum of the old value
  and the granted one, never to their sum: granting 0.3 and then 0.5 leaves the maximum
  of the old value and 0.5, which is 0.5 for a participant whose shield was 0 as at
  construction.
\<close>

theorem shield_grant_takes_max:
  "map_option shield_percent (fst (snd (apply_entry (Entry shield (Some v)) actor (Some t))))
     = Some (max (shield_percent t) v)
   \<and> map_option shield_percent
        (fst (snd (apply_entries [Entry shield (Some (3/10)), Entry shield (Some (1/2))]
                     actor (Some t))))
     = Some (max (shield_percent t) (1/2))
   \<and> (shield_percent t = 0 \<longrightarrow>
        map_option shield_percent
          (fst (snd (apply_entries [Entry shield (Some (3/10)), Entry shield (Some (1/2))]
                       actor (Some t))))
        = Some (1/2))"
  by (simp add: apply_entry_def get_value_def Let_def max_def)

theorem shield_grant_takes_max_witness:
  "map_option shield_percent
     (fst (snd (apply_entries [Entry shield (Some (3/10)), Entry shield (Some (1/2))]
                  (hd (make_participants [c_plain]))
                  (Some (hd (make_participants [c_shielder]))))))
   = Some (1/2)"
  using shield_grant_takes_max
          [of 0 "hd (make_participants [c_plain])" "hd (make_participants [c_shielder])"]
  by (simp add: make_participants_def)

subsection \<open>Heals\<close>




subsection \<open>The damage of one exchange\<close>




subsection \<open>What firing a hook and resolving an attack can change\<close>

lemma fire_acting:
  assumes "fire w X i Y jo = (X', Y', l)"
  shows "length X' = length X"
    and "k < length X \<Longrightarrow> inst (X' ! k) = inst (X ! k) \<and> max_hp (X' ! k) = max_hp (X ! k)
           \<and> shield_percent (X' ! k) = shield_percent (X ! k) \<and> (k \<noteq> i \<longrightarrow> X' ! k = X ! k)"
proof -
  obtain a' t' where r: "apply_abilities w (X ! i) (map_option (\<lambda>j. Y ! j) jo) = (a', t', l)"
    and X': "X' = X[i := a']"
    using assms by (auto simp: fire_def split: prod.splits)
  show "length X' = length X" using X' by simp
  from r have "inst a' = inst (X ! i) \<and> max_hp a' = max_hp (X ! i)
      \<and> shield_percent a' = shield_percent (X ! i)"
    unfolding apply_abilities_def by (rule apply_entries_actor)
  then show "k < length X \<Longrightarrow> inst (X' ! k) = inst (X ! k) \<and> max_hp (X' ! k) = max_hp (X ! k)
           \<and> shield_percent (X' ! k) = shield_percent (X ! k) \<and> (k \<noteq> i \<longrightarrow> X' ! k = X ! k)"
    using X' by (cases "k = i") auto
qed

lemma fire_other:
  assumes "fire w X i Y jo = (X', Y', l)"
  shows "length Y' = length Y"
    and "k < length Y \<Longrightarrow> inst (Y' ! k) = inst (Y ! k) \<and> max_hp (Y' ! k) = max_hp (Y ! k)
           \<and> current_hp (Y' ! k) = current_hp (Y ! k)
           \<and> extra_damage_multiplier (Y' ! k) = extra_damage_multiplier (Y ! k)
           \<and> extra_flat_damage (Y' ! k) = extra_flat_damage (Y ! k)
           \<and> shield_percent (Y ! k) \<le> shield_percent (Y' ! k)"
proof -
  obtain a' t' where r: "apply_abilities w (X ! i) (map_option (\<lambda>j. Y ! j) jo) = (a', t', l)"
    and Y': "Y' = (case (jo, t') of (Some j, Some t) \<Rightarrow> Y[j := t] | _ \<Rightarrow> Y)"
    using assms by (auto simp: fire_def split: prod.splits)
  show "length Y' = length Y" using Y' by (auto split: option.splits)
  from r have t: "case map_option (\<lambda>j. Y ! j) jo of None \<Rightarrow> t' = None
      | Some x \<Rightarrow> (\<exists>y. t' = Some y \<and> inst y = inst x \<and> max_hp y = max_hp x
                        \<and> current_hp y = current_hp x
                        \<and> extra_damage_multiplier y = extra_damage_multiplier x
                        \<and> extra_flat_damage y = extra_flat_damage x
                        \<and> shield_percent x \<le> shield_percent y)"
    unfolding apply_abilities_def by (rule apply_entries_target)
  show "k < length Y \<Longrightarrow> inst (Y' ! k) = inst (Y ! k) \<and> max_hp (Y' ! k) = max_hp (Y ! k)
           \<and> current_hp (Y' ! k) = current_hp (Y ! k)
           \<and> extra_damage_multiplier (Y' ! k) = extra_damage_multiplier (Y ! k)
           \<and> extra_flat_damage (Y' ! k) = extra_flat_damage (Y ! k)
           \<and> shield_percent (Y ! k) \<le> shield_percent (Y' ! k)"
  proof (cases jo)
    case None
    then show ?thesis using Y' by simp
  next
    case (Some j)
    with t obtain y where y: "t' = Some y" "inst y = inst (Y ! j)" "max_hp y = max_hp (Y ! j)"
      "current_hp y = current_hp (Y ! j)"
      "extra_damage_multiplier y = extra_damage_multiplier (Y ! j)"
      "extra_flat_damage y = extra_flat_damage (Y ! j)"
      "shield_percent (Y ! j) \<le> shield_percent y"
      by auto
    assume "k < length Y"
    then show ?thesis using Y' Some y by (cases "k = j") auto
  qed
qed

lemma resolve_attack_fields:
  assumes "resolve_attack dmg a b = (a', b', l)"
  shows "a' = a\<lparr>extra_damage_multiplier := 1, extra_flat_damage := 0\<rparr>"
    and "b' = b\<lparr>current_hp := current_hp b - final_damage dmg (shield_percent b)\<rparr>"
  using assms by (auto simp: resolve_attack_def Let_def)

text \<open>
  The values computed along one attack, and the three ways it ends: the defender
  survives, the defender falls and its team has nobody left, or a next participant
  enters.
\<close>

lemma attack_half_paths:
  assumes "attack_half X i Y j = (X', Y', l)"
  shows "\<exists>X1 Y1 l1 Y2 X2 l2 a3 b3 l3 Y4 X4 l4 Y5 X5 l5.
    fire on_attack X i Y (Some j) = (X1, Y1, l1) \<and>
    fire on_defend Y1 j X1 (Some i) = (Y2, X2, l2) \<and>
    resolve_attack (base_damage (X1 ! i)) (X2 ! i) (Y2 ! j) = (a3, b3, l3) \<and>
    fire on_exit (Y2[j := b3]) j (X2[i := a3]) (Some i) = (Y4, X4, l4) \<and>
    fire on_enter Y4 (the (active Y4)) X4 (Some i) = (Y5, X5, l5) \<and>
    (X', Y', l) =
      (if 0 < current_hp b3 then (X2[i := a3], Y2[j := b3], l1 @ l2 @ l3)
       else if active Y4 = None then (X4, Y4, l1 @ l2 @ l3 @ [Defeated (name b3)] @ l4)
       else (X5, Y5, l1 @ l2 @ l3 @ [Defeated (name b3)] @ l4 @ l5))"
proof -
  obtain X1 Y1 l1 where 1: "fire on_attack X i Y (Some j) = (X1, Y1, l1)"
    by (cases "fire on_attack X i Y (Some j)") auto
  obtain Y2 X2 l2 where 2: "fire on_defend Y1 j X1 (Some i) = (Y2, X2, l2)"
    by (cases "fire on_defend Y1 j X1 (Some i)") auto
  obtain a3 b3 l3 where 3: "resolve_attack (base_damage (X1 ! i)) (X2 ! i) (Y2 ! j) = (a3, b3, l3)"
    by (cases "resolve_attack (base_damage (X1 ! i)) (X2 ! i) (Y2 ! j)") auto
  obtain Y4 X4 l4 where 4: "fire on_exit (Y2[j := b3]) j (X2[i := a3]) (Some i) = (Y4, X4, l4)"
    by (cases "fire on_exit (Y2[j := b3]) j (X2[i := a3]) (Some i)") auto
  obtain Y5 X5 l5 where 5: "fire on_enter Y4 (the (active Y4)) X4 (Some i) = (Y5, X5, l5)"
    by (cases "fire on_enter Y4 (the (active Y4)) X4 (Some i)") auto
  have "(X', Y', l) =
      (if 0 < current_hp b3 then (X2[i := a3], Y2[j := b3], l1 @ l2 @ l3)
       else if active Y4 = None then (X4, Y4, l1 @ l2 @ l3 @ [Defeated (name b3)] @ l4)
       else (X5, Y5, l1 @ l2 @ l3 @ [Defeated (name b3)] @ l4 @ l5))"
    using assms 1 2 3 4 5 by (auto simp: attack_half_def Let_def)
  with 1 2 3 4 5 show ?thesis by blast
qed

lemma same_roster_refl: "same_roster X X"
  by (simp add: same_roster_def)

lemma same_roster_trans: "same_roster X Y \<Longrightarrow> same_roster Y Z \<Longrightarrow> same_roster X Z"
  by (fastforce simp: same_roster_def)

lemma same_roster_update:
  "inst a = inst (X ! i) \<Longrightarrow> max_hp a = max_hp (X ! i)
     \<Longrightarrow> shield_percent (X ! i) \<le> shield_percent a \<Longrightarrow> same_roster X (X[i := a])"
  by (cases "i < length X") (auto simp: same_roster_def nth_list_update)

lemma fire_roster:
  assumes "fire w X i Y jo = (X', Y', l)"
  shows "same_roster X X'" and "same_roster Y Y'"
  using fire_acting[OF assms] fire_other[OF assms] by (auto simp: same_roster_def)

lemma attack_half_roster:
  assumes "attack_half X i Y j = (X', Y', l)"
  shows "same_roster X X' \<and> same_roster Y Y'"
proof -
  obtain X1 Y1 l1 Y2 X2 l2 a3 b3 l3 Y4 X4 l4 Y5 X5 l5 where
    1: "fire on_attack X i Y (Some j) = (X1, Y1, l1)" and
    2: "fire on_defend Y1 j X1 (Some i) = (Y2, X2, l2)" and
    3: "resolve_attack (base_damage (X1 ! i)) (X2 ! i) (Y2 ! j) = (a3, b3, l3)" and
    4: "fire on_exit (Y2[j := b3]) j (X2[i := a3]) (Some i) = (Y4, X4, l4)" and
    5: "fire on_enter Y4 (the (active Y4)) X4 (Some i) = (Y5, X5, l5)" and
    res: "(X', Y', l) =
      (if 0 < current_hp b3 then (X2[i := a3], Y2[j := b3], l1 @ l2 @ l3)
       else if active Y4 = None then (X4, Y4, l1 @ l2 @ l3 @ [Defeated (name b3)] @ l4)
       else (X5, Y5, l1 @ l2 @ l3 @ [Defeated (name b3)] @ l4 @ l5))"
    using attack_half_paths[OF assms(1)] by blast
  note r3 = resolve_attack_fields[OF 3]
  have X2: "same_roster X X2"
    using fire_roster(1)[OF 1] fire_roster(2)[OF 2] by (rule same_roster_trans)
  have Y2: "same_roster Y Y2"
    using fire_roster(2)[OF 1] fire_roster(1)[OF 2] by (rule same_roster_trans)
  have X3: "same_roster X (X2[i := a3])"
    using X2 by (rule same_roster_trans) (rule same_roster_update, simp_all add: r3)
  have Y3: "same_roster Y (Y2[j := b3])"
    using Y2 by (rule same_roster_trans) (rule same_roster_update, simp_all add: r3)
  note f4 = fire_roster[OF 4]
  have X4: "same_roster X X4" using X3 f4(2) by (rule same_roster_trans)
  have Y4: "same_roster Y Y4" using Y3 f4(1) by (rule same_roster_trans)
  note f5 = fire_roster[OF 5]
  have X5: "same_roster X X5" using X4 f5(2) by (rule same_roster_trans)
  have Y5: "same_roster Y Y5" using Y4 f5(1) by (rule same_roster_trans)
  from res X3 Y3 X4 Y4 X5 Y5 show ?thesis by (auto split: if_splits)
qed

lemma attack_half_attacker_reset:
  assumes "attack_half X i Y j = (X', Y', l)" and i: "i < length X"
  shows "extra_damage_multiplier (X' ! i) = 1 \<and> extra_flat_damage (X' ! i) = 0"
proof -
  obtain X1 Y1 l1 Y2 X2 l2 a3 b3 l3 Y4 X4 l4 Y5 X5 l5 where
    1: "fire on_attack X i Y (Some j) = (X1, Y1, l1)" and
    2: "fire on_defend Y1 j X1 (Some i) = (Y2, X2, l2)" and
    3: "resolve_attack (base_damage (X1 ! i)) (X2 ! i) (Y2 ! j) = (a3, b3, l3)" and
    4: "fire on_exit (Y2[j := b3]) j (X2[i := a3]) (Some i) = (Y4, X4, l4)" and
    5: "fire on_enter Y4 (the (active Y4)) X4 (Some i) = (Y5, X5, l5)" and
    res: "(X', Y', l) =
      (if 0 < current_hp b3 then (X2[i := a3], Y2[j := b3], l1 @ l2 @ l3)
       else if active Y4 = None then (X4, Y4, l1 @ l2 @ l3 @ [Defeated (name b3)] @ l4)
       else (X5, Y5, l1 @ l2 @ l3 @ [Defeated (name b3)] @ l4 @ l5))"
    using attack_half_paths[OF assms(1)] by blast
  note r3 = resolve_attack_fields[OF 3]
  have len2: "i < length X2"
    using fire_acting(1)[OF 1] fire_other(1)[OF 2] i by simp
  have X3: "extra_damage_multiplier ((X2[i := a3]) ! i) = 1 \<and> extra_flat_damage ((X2[i := a3]) ! i) = 0"
    using len2 r3 by simp
  have len3: "i < length (X2[i := a3])" using len2 by simp
  have X4: "extra_damage_multiplier (X4 ! i) = 1 \<and> extra_flat_damage (X4 ! i) = 0"
    using fire_other(2)[OF 4 len3] X3 by simp
  have len4: "i < length X4" using fire_other(1)[OF 4] len3 by simp
  have X5: "extra_damage_multiplier (X5 ! i) = 1 \<and> extra_flat_damage (X5 ! i) = 0"
    using fire_other(2)[OF 5 len4] X4 by simp
  from res X3 X4 X5 show ?thesis by (auto split: if_splits)
qed

subsection \<open>The reset after an attack\<close>

text \<open>
  C8. When the attack of a participant resolves (lines 105-115 and 134-144) its
  \<open>extra_damage_multiplier\<close> is set to 1 and its \<open>extra_flat_damage\<close> to 0, and the
  \<open>shield_percent\<close> of attacker and defender is left as it was. At the end of the
  whole attack step the attacker still has multiplier 1 and flat damage 0, and no
  participant of either team has a lower \<open>shield_percent\<close> than before the step:
  an attack never resets a shield.
\<close>

theorem attack_resets_attacker_keeps_shields:
  "extra_damage_multiplier (fst (resolve_attack dmg a b)) = 1
   \<and> extra_flat_damage (fst (resolve_attack dmg a b)) = 0
   \<and> shield_percent (fst (resolve_attack dmg a b)) = shield_percent a
   \<and> shield_percent (fst (snd (resolve_attack dmg a b))) = shield_percent b
   \<and> (i < length X \<longrightarrow>
        extra_damage_multiplier (fst (attack_half X i Y j) ! i) = 1
        \<and> extra_flat_damage (fst (attack_half X i Y j) ! i) = 0)
   \<and> same_roster X (fst (attack_half X i Y j))
   \<and> same_roster Y (fst (snd (attack_half X i Y j)))"
proof -
  obtain a' b' l0 where r: "resolve_attack dmg a b = (a', b', l0)"
    by (cases "resolve_attack dmg a b") auto
  obtain X' Y' l where h: "attack_half X i Y j = (X', Y', l)"
    by (cases "attack_half X i Y j") auto
  show ?thesis
    using resolve_attack_fields[OF r] attack_half_roster[OF h] attack_half_attacker_reset[OF h]
    by (simp add: r h)
qed

theorem attack_resets_attacker_keeps_shields_witness:
  "extra_damage_multiplier
     (fst (attack_half (make_participants [c_negmult]) 0 (make_participants [c_plain]) 0) ! 0) = 1
   \<and> extra_flat_damage
     (fst (attack_half (make_participants [c_negmult]) 0 (make_participants [c_plain]) 0) ! 0) = 0
   \<and> same_roster (make_participants [c_plain])
        (fst (snd (attack_half (make_participants [c_negmult]) 0 (make_participants [c_plain]) 0)))"
  using attack_resets_attacker_keeps_shields
          [of 0 "hd (make_participants [c_negmult])" "hd (make_participants [c_plain])"
              0 "make_participants [c_negmult]" "make_participants [c_plain]" 0]
  by (simp add: make_participants_def)

subsection \<open>The order of the hooks in an attack\<close>

text \<open>
  The defender of \<^verbatim>\<open>test_ability_extra_damage_and_shield\<close>, with a 50% shield in
  \<^verbatim>\<open>on_defend\<close>, is hit by an attacker of ATK 10: the shield is granted to the hook's
  target, the attacker, the defender's own \<open>shield_percent\<close> stays 0, no damage is
  absorbed and the defender loses the full 10 HP.
\<close>

theorem on_defend_shield_counterexample:
  "current_hp (hd (fst (snd (attack_half (make_participants [c_plain]) 0
                                          (make_participants [c_shielder]) 0)))) = 30 - 10
   \<and> shield_percent (hd (fst (snd (attack_half (make_participants [c_plain]) 0
                                          (make_participants [c_shielder]) 0)))) = 0
   \<and> shield_percent (hd (fst (attack_half (make_participants [c_plain]) 0
                                          (make_participants [c_shielder]) 0))) = 1/2
   \<and> snd (snd (attack_half (make_participants [c_plain]) 0 (make_participants [c_shielder]) 0))
       = [GrantsShield ''S'' 50 ''P'', Deals ''P'' 10 ''S'' 20]"
  by (simp add: ev)

text \<open>
  C4, amended. In an attack step \<^verbatim>\<open>on_attack\<close> fires on the attacker, then
  \<^verbatim>\<open>on_defend\<close> fires on the defender, and only then is the hit resolved and
  subtracted from the defender's HP. The hit is already decided when \<^verbatim>\<open>on_defend\<close>
  fires: that hook changes neither the attacker's pre-shield damage nor the
  defender's \<open>shield_percent\<close>, since a shield granted there goes to the hook's
  target, the attacker, whose \<open>shield_percent\<close> can only grow.
\<close>

theorem on_defend_before_damage:
  assumes 1: "fire on_attack X i Y (Some j) = (X1, Y1, l1)"
      and 2: "fire on_defend Y1 j X1 (Some i) = (Y2, X2, l2)"
      and h: "attack_half X i Y j = (X', Y', l)"
      and i: "i < length X" and j: "j < length Y"
  shows "\<exists>a3 b3 l3 rest.
           resolve_attack (base_damage (X1 ! i)) (X2 ! i) (Y2 ! j) = (a3, b3, l3)
           \<and> l = l1 @ l2 @ l3 @ rest
           \<and> current_hp b3
               = current_hp (Y2 ! j) - final_damage (base_damage (X1 ! i)) (shield_percent (Y1 ! j))
           \<and> shield_percent (Y2 ! j) = shield_percent (Y1 ! j)
           \<and> base_damage (X2 ! i) = base_damage (X1 ! i)
           \<and> shield_percent (X1 ! i) \<le> shield_percent (X2 ! i)"
proof -
  obtain X1' Y1' l1' Y2' X2' l2' a3 b3 l3 Y4 X4 l4 Y5 X5 l5 where
    p1: "fire on_attack X i Y (Some j) = (X1', Y1', l1')" and
    p2: "fire on_defend Y1' j X1' (Some i) = (Y2', X2', l2')" and
    3: "resolve_attack (base_damage (X1' ! i)) (X2' ! i) (Y2' ! j) = (a3, b3, l3)" and
    res: "(X', Y', l) =
      (if 0 < current_hp b3 then (X2'[i := a3], Y2'[j := b3], l1' @ l2' @ l3)
       else if active Y4 = None then (X4, Y4, l1' @ l2' @ l3 @ [Defeated (name b3)] @ l4)
       else (X5, Y5, l1' @ l2' @ l3 @ [Defeated (name b3)] @ l4 @ l5))"
    using attack_half_paths[OF h] by blast
  from 1 p1 have e1: "X1' = X1" "Y1' = Y1" "l1' = l1" by simp_all
  from 2 p2 e1 have e2: "X2' = X2" "Y2' = Y2" "l2' = l2" by simp_all
  have i1: "i < length X1" using fire_acting(1)[OF 1] i by simp
  have j1: "j < length Y1" using fire_other(1)[OF 1] j by simp
  have sh: "shield_percent (Y2 ! j) = shield_percent (Y1 ! j)"
    using fire_acting(2)[OF 2 j1] by simp
  have oth: "inst (X2 ! i) = inst (X1 ! i)"
    "extra_damage_multiplier (X2 ! i) = extra_damage_multiplier (X1 ! i)"
    "extra_flat_damage (X2 ! i) = extra_flat_damage (X1 ! i)"
    "shield_percent (X1 ! i) \<le> shield_percent (X2 ! i)"
    using fire_other(2)[OF 2 i1] by simp_all
  have bd: "base_damage (X2 ! i) = base_damage (X1 ! i)"
    using oth by (simp add: base_damage_def)
  have hp: "current_hp b3
      = current_hp (Y2 ! j) - final_damage (base_damage (X1 ! i)) (shield_percent (Y1 ! j))"
    using resolve_attack_fields(2)[OF 3] e1 e2 sh by simp
  have "\<exists>rest. l = l1 @ l2 @ l3 @ rest"
    using res e1 e2 by (auto split: if_splits)
  with 3 e1 e2 hp sh bd oth(4) show ?thesis by auto
qed

theorem on_defend_before_damage_witness:
  "\<exists>a3 b3 l3 rest.
     resolve_attack (base_damage (make_participants [c_plain] ! 0))
        ((make_participants [c_plain])[0 := (hd (make_participants [c_plain]))\<lparr>shield_percent := 1/2\<rparr>] ! 0)
        (make_participants [c_shielder] ! 0) = (a3, b3, l3)
     \<and> [GrantsShield ''S'' 50 ''P'', Deals ''P'' 10 ''S'' 20] = [] @ [GrantsShield ''S'' 50 ''P''] @ l3 @ rest
     \<and> current_hp b3 = 20"
  using on_defend_before_damage
          [of "make_participants [c_plain]" 0 "make_participants [c_shielder]" 0
              "make_participants [c_plain]" "make_participants [c_shielder]" "[]"
              "make_participants [c_shielder]"
              "(make_participants [c_plain])[0 := (hd (make_participants [c_plain]))\<lparr>shield_percent := 1/2\<rparr>]"
              "[GrantsShield ''S'' 50 ''P'']"
              "(make_participants [c_plain])[0 := (hd (make_participants [c_plain]))\<lparr>shield_percent := 1/2\<rparr>]"
              "(make_participants [c_shielder])[0 := (hd (make_participants [c_shielder]))\<lparr>current_hp := 20\<rparr>]"
              "[GrantsShield ''S'' 50 ''P'', Deals ''P'' 10 ''S'' 20]"]
  by (simp add: ev)

subsection \<open>The bound on current HP\<close>

lemma apply_entry_hp_le:
  "apply_entry e a t = (a', t', l) \<Longrightarrow> current_hp a \<le> max_hp a \<Longrightarrow> current_hp a' \<le> max_hp a'"
  by (auto simp: apply_entry_def Let_def split: ability_type.splits option.splits)

lemma apply_entries_hp_le:
  "apply_entries es a t = (a', t', l) \<Longrightarrow> current_hp a \<le> max_hp a \<Longrightarrow> current_hp a' \<le> max_hp a'"
proof (induction es arbitrary: a t a' t' l)
  case Nil
  then show ?case by simp
next
  case (Cons e es)
  obtain a1 t1 l1 where e: "apply_entry e a t = (a1, t1, l1)"
    by (cases "apply_entry e a t") auto
  obtain a2 t2 l2 where r: "apply_entries es a1 t1 = (a2, t2, l2)"
    by (cases "apply_entries es a1 t1") auto
  from Cons.prems e r have eq: "a' = a2" by simp
  from apply_entry_hp_le[OF e Cons.prems(2)] Cons.IH[OF r] eq show ?case by simp
qed

lemma fire_team_ok:
  assumes f: "fire w X i Y jo = (X', Y', l)"
  shows "team_ok X \<Longrightarrow> team_ok X'" and "team_ok Y \<Longrightarrow> team_ok Y'"
proof -
  obtain a' t' where r: "apply_abilities w (X ! i) (map_option (\<lambda>j. Y ! j) jo) = (a', t', l)"
    and X': "X' = X[i := a']"
    using f by (auto simp: fire_def split: prod.splits)
  note act = apply_entries_actor[OF r[unfolded apply_abilities_def]]
  note le = apply_entries_hp_le[OF r[unfolded apply_abilities_def]]
  show "team_ok X'" if ok: "team_ok X"
    unfolding team_ok_def
  proof (intro allI impI)
    fix k assume k: "k < length X'"
    then have kX: "k < length X" using X' by simp
    show "hp_ok (X' ! k)"
    proof (cases "k = i")
      case True
      then have "X' ! k = a'" using X' kX by simp
      moreover have "hp_ok (X ! i)" using ok kX True by (simp add: team_ok_def)
      ultimately show ?thesis using act le by (simp add: hp_ok_def)
    next
      case False
      then show ?thesis using ok kX X' by (simp add: team_ok_def)
    qed
  qed
  show "team_ok Y'" if ok: "team_ok Y"
    unfolding team_ok_def
  proof (intro allI impI)
    fix k assume "k < length Y'"
    then have k: "k < length Y" using fire_other(1)[OF f] by simp
    from fire_other(2)[OF f k] ok[unfolded team_ok_def, rule_format, OF k] show "hp_ok (Y' ! k)"
      by (simp add: hp_ok_def)
  qed
qed

lemma team_ok_update:
  assumes "team_ok X" and "i < length X \<longrightarrow> hp_ok a"
  shows "team_ok (X[i := a])"
  unfolding team_ok_def
proof (intro allI impI)
  fix k assume "k < length (X[i := a])"
  then have k: "k < length X" by simp
  show "hp_ok (X[i := a] ! k)"
  proof (cases "k = i")
    case True
    with k assms(2) show ?thesis by simp
  next
    case False
    with k assms(1) show ?thesis by (simp add: team_ok_def)
  qed
qed

lemma attack_half_team_ok:
  assumes h: "attack_half X i Y j = (X', Y', l)" and X: "team_ok X" and Y: "team_ok Y"
  shows "team_ok X' \<and> team_ok Y'"
proof -
  obtain X1 Y1 l1 Y2 X2 l2 a3 b3 l3 Y4 X4 l4 Y5 X5 l5 where
    1: "fire on_attack X i Y (Some j) = (X1, Y1, l1)" and
    2: "fire on_defend Y1 j X1 (Some i) = (Y2, X2, l2)" and
    3: "resolve_attack (base_damage (X1 ! i)) (X2 ! i) (Y2 ! j) = (a3, b3, l3)" and
    4: "fire on_exit (Y2[j := b3]) j (X2[i := a3]) (Some i) = (Y4, X4, l4)" and
    5: "fire on_enter Y4 (the (active Y4)) X4 (Some i) = (Y5, X5, l5)" and
    res: "(X', Y', l) =
      (if 0 < current_hp b3 then (X2[i := a3], Y2[j := b3], l1 @ l2 @ l3)
       else if active Y4 = None then (X4, Y4, l1 @ l2 @ l3 @ [Defeated (name b3)] @ l4)
       else (X5, Y5, l1 @ l2 @ l3 @ [Defeated (name b3)] @ l4 @ l5))"
    using attack_half_paths[OF h] by blast
  note r3 = resolve_attack_fields[OF 3]
  have X2: "team_ok X2" using fire_team_ok(2)[OF 2] fire_team_ok(1)[OF 1] X by simp
  have Y2: "team_ok Y2" using fire_team_ok(1)[OF 2] fire_team_ok(2)[OF 1] Y by simp
  have d: "1 \<le> final_damage (base_damage (X1 ! i)) (shield_percent (Y2 ! j))"
    by (simp add: final_damage_def)
  have "i < length X2 \<longrightarrow> hp_ok a3"
  proof
    assume "i < length X2"
    then have "hp_ok (X2 ! i)" using X2 by (simp add: team_ok_def)
    then show "hp_ok a3" using r3 by (simp add: hp_ok_def)
  qed
  with X2 have X3: "team_ok (X2[i := a3])" by (rule team_ok_update)
  have "j < length Y2 \<longrightarrow> hp_ok b3"
  proof
    assume "j < length Y2"
    then have "hp_ok (Y2 ! j)" using Y2 by (simp add: team_ok_def)
    then show "hp_ok b3" using r3 d by (simp add: hp_ok_def)
  qed
  with Y2 have Y3: "team_ok (Y2[j := b3])" by (rule team_ok_update)
  have X4: "team_ok X4" and Y4: "team_ok Y4" using fire_team_ok[OF 4] X3 Y3 by simp_all
  have X5: "team_ok X5" and Y5: "team_ok Y5" using fire_team_ok[OF 5] X4 Y4 by simp_all
  from res X3 Y3 X4 Y4 X5 Y5 show ?thesis by (auto split: if_splits)
qed

lemma turn_body_ok:
  assumes "battle_ok s"
  shows "battle_ok (fst (turn_body t s))"
proof (cases "active (team_a s)")
  case None
  then show ?thesis using assms by (simp add: turn_body_def)
next
  case (Some i)
  show ?thesis
  proof (cases "active (team_b s)")
    case None
    then show ?thesis using assms Some by (simp add: turn_body_def)
  next
    case j: (Some j)
    obtain A1 B1 l1 where h1: "attack_half (team_a s) i (team_b s) j = (A1, B1, l1)"
      by (cases "attack_half (team_a s) i (team_b s) j") auto
    have ok1: "team_ok A1 \<and> team_ok B1"
      using attack_half_team_ok[OF h1] assms by (simp add: battle_ok_def)
    show ?thesis
    proof (cases "active A1 = None \<or> active B1 = None")
      case True
      then show ?thesis using Some j h1 ok1
        by (auto simp: turn_body_def Let_def battle_ok_def split: option.splits)
    next
      case False
      then obtain i' j' where a: "active A1 = Some i'" "active B1 = Some j'" by auto
      obtain B2 A2 l2 where h2: "attack_half B1 j' A1 i' = (B2, A2, l2)"
        by (cases "attack_half B1 j' A1 i'") auto
      have "team_ok B2 \<and> team_ok A2" using attack_half_team_ok[OF h2] ok1 by simp
      then show ?thesis using Some j h1 a h2
        by (simp add: turn_body_def Let_def battle_ok_def)
    qed
  qed
qed

lemma turn_loop_ok: "battle_ok s \<Longrightarrow> battle_ok (fst (turn_loop t s))"
proof (induction t s rule: turn_loop.induct)
  case (1 turn s)
  have b: "battle_ok (fst (turn_body turn s))" using "1.prems" by (rule turn_body_ok)
  show ?case
  proof (cases "snd (snd (turn_body turn s)) \<and> \<not> 1000 < turn + 1")
    case True
    then have "battle_ok (fst (turn_loop (turn + 1) (fst (turn_body turn s))))"
      using "1.IH"[OF refl refl refl _ _ b] by simp
    then show ?thesis using True by (subst turn_loop.simps) (simp add: Let_def)
  next
    case False
    then show ?thesis using b by (subst turn_loop.simps) (auto simp: Let_def)
  qed
qed

lemma make_participants_ok: "team_ok (make_participants t)"
  by (simp add: team_ok_def make_participants_def hp_ok_def)

lemma enter_initial_ok:
  assumes "battle_ok s"
  shows "battle_ok (fst (enter_initial s))"
proof -
  obtain A1 B1 l1 where 1: "(case active (team_a s) of
               Some i \<Rightarrow> fire on_enter (team_a s) i (team_b s) (active (team_b s))
             | None \<Rightarrow> (team_a s, team_b s, [])) = (A1, B1, l1)"
    by (metis prod_cases3)
  obtain B2 A2 l2 where 2: "(case active (team_b s) of
                    Some j \<Rightarrow> fire on_enter B1 j A1 (active (team_a s))
                  | None \<Rightarrow> (B1, A1, [])) = (B2, A2, l2)"
    by (metis prod_cases3)
  have ok1: "team_ok A1 \<and> team_ok B1"
    using 1 assms fire_team_ok by (auto simp: battle_ok_def split: option.splits)
  have ok2: "team_ok A2 \<and> team_ok B2"
    using 2 ok1 fire_team_ok by (auto split: option.splits)
  show ?thesis using 1 2 ok2 by (simp add: enter_initial_def Let_def battle_ok_def)
qed

lemma run_state_fst: "fst (run_state s) = fst (turn_loop 1 (fst (enter_initial s)))"
  by (simp add: run_state_def split: prod.splits)

text \<open>
  C10. Throughout a battle the \<open>current_hp\<close> of every participant stays at most its
  \<open>max_hp\<close>, which stays the health of its entity: this holds for the teams as
  constructed (where the two are equal), after the initial \<^verbatim>\<open>on_enter\<close> hooks, after
  every pass of the loop body and after the loop from any state that satisfies it,
  and so at the end of \<^verbatim>\<open>run\<close>. Of the operations on a participant, an ability entry
  keeps \<open>max_hp\<close>, keeps \<open>current_hp\<close> within it, changes the actor's \<open>current_hp\<close>
  only if it is a heal and never the target's; resolving an attack keeps the
  attacker's \<open>current_hp\<close> and lowers the defender's.
\<close>

theorem current_hp_never_exceeds_max_hp:
  assumes "TeamBattle ta tb = Inr s"
  shows "battle_ok s
    \<and> (\<forall>p \<in> set (team_a s) \<union> set (team_b s).
          current_hp p = max_hp p \<and> max_hp p = health (inst p))
    \<and> battle_ok (fst (enter_initial s))
    \<and> (\<forall>t s'. battle_ok s' \<longrightarrow>
          battle_ok (fst (turn_body t s')) \<and> battle_ok (fst (turn_loop t s')))
    \<and> battle_ok (fst (run_state s))
    \<and> (\<forall>e a t. max_hp (fst (apply_entry e a t)) = max_hp a
          \<and> (current_hp a \<le> max_hp a \<longrightarrow> current_hp (fst (apply_entry e a t)) \<le> max_hp a)
          \<and> (entry_type e \<noteq> heal \<longrightarrow> current_hp (fst (apply_entry e a t)) = current_hp a)
          \<and> map_option current_hp (fst (snd (apply_entry e a t))) = map_option current_hp t)
    \<and> (\<forall>dmg a b. current_hp (fst (resolve_attack dmg a b)) = current_hp a
          \<and> max_hp (fst (resolve_attack dmg a b)) = max_hp a
          \<and> current_hp (fst (snd (resolve_attack dmg a b))) < current_hp b
          \<and> max_hp (fst (snd (resolve_attack dmg a b))) = max_hp b)"
proof -
  from assms have s: "s = \<lparr>team_a = make_participants ta, team_b = make_participants tb\<rparr>"
    by (auto simp: TeamBattle_def split: if_splits)
  have 1: "battle_ok s" using s by (simp add: battle_ok_def make_participants_ok)
  have 2: "\<forall>p \<in> set (team_a s) \<union> set (team_b s).
          current_hp p = max_hp p \<and> max_hp p = health (inst p)"
    using s by (auto simp: make_participants_def)
  have 3: "battle_ok (fst (enter_initial s))" using 1 by (rule enter_initial_ok)
  have 4: "\<forall>t s'. battle_ok s' \<longrightarrow>
          battle_ok (fst (turn_body t s')) \<and> battle_ok (fst (turn_loop t s'))"
    using turn_body_ok turn_loop_ok by blast
  have 5: "battle_ok (fst (run_state s))"
    using 3 by (simp add: run_state_fst turn_loop_ok)
  have 6: "\<forall>e a t. max_hp (fst (apply_entry e a t)) = max_hp a
          \<and> (current_hp a \<le> max_hp a \<longrightarrow> current_hp (fst (apply_entry e a t)) \<le> max_hp a)
          \<and> (entry_type e \<noteq> heal \<longrightarrow> current_hp (fst (apply_entry e a t)) = current_hp a)
          \<and> map_option current_hp (fst (snd (apply_entry e a t))) = map_option current_hp t"
    by (auto simp: apply_entry_def Let_def split: ability_type.splits option.splits)
  have "1 \<le> final_damage dmg sp" for dmg sp by (simp add: final_damage_def)
  then have "0 < final_damage dmg sp" for dmg sp by (smt (verit))
  then have 7: "\<forall>dmg a b. current_hp (fst (resolve_attack dmg a b)) = current_hp a
          \<and> max_hp (fst (resolve_attack dmg a b)) = max_hp a
          \<and> current_hp (fst (snd (resolve_attack dmg a b))) < current_hp b
          \<and> max_hp (fst (snd (resolve_attack dmg a b))) = max_hp b"
    by (simp add: resolve_attack_def Let_def)
  from 1 2 3 4 5 6 7 show ?thesis by blast
qed

theorem current_hp_never_exceeds_max_hp_witness:
  "TeamBattle [c_negmult] [c_shielder]
     = Inr \<lparr>team_a = make_participants [c_negmult], team_b = make_participants [c_shielder]\<rparr>
   \<and> battle_ok (fst (run_state
        \<lparr>team_a = make_participants [c_negmult], team_b = make_participants [c_shielder]\<rparr>))"
  using current_hp_never_exceeds_max_hp
          [of "[c_negmult]" "[c_shielder]"
              "\<lparr>team_a = make_participants [c_negmult], team_b = make_participants [c_shielder]\<rparr>"]
  by (simp add: TeamBattle_def)

subsection \<open>The shape of the transcript\<close>

lemma apply_entry_lines:
  "apply_entry e a t = (a', t', l) \<Longrightarrow> \<forall>x\<in>set l. \<not> loop_line x"
  by (auto simp: apply_entry_def Let_def split: ability_type.splits option.splits)

lemma apply_entries_lines:
  "apply_entries es a t = (a', t', l) \<Longrightarrow> \<forall>x\<in>set l. \<not> loop_line x"
proof (induction es arbitrary: a t a' t' l)
  case Nil
  then show ?case by simp
next
  case (Cons e es)
  obtain a1 t1 l1 where e: "apply_entry e a t = (a1, t1, l1)"
    by (cases "apply_entry e a t") auto
  obtain a2 t2 l2 where r: "apply_entries es a1 t1 = (a2, t2, l2)"
    by (cases "apply_entries es a1 t1") auto
  from Cons.prems e r have eq: "l = l1 @ l2" by simp
  from apply_entry_lines[OF e] Cons.IH[OF r] eq show ?case by auto
qed

lemma fire_lines:
  assumes "fire w X i Y jo = (X', Y', l)"
  shows "\<forall>x\<in>set l. \<not> loop_line x"
proof -
  obtain a' t' where "apply_abilities w (X ! i) (map_option (\<lambda>j. Y ! j) jo) = (a', t', l)"
    using assms by (auto simp: fire_def split: prod.splits)
  then show ?thesis unfolding apply_abilities_def by (rule apply_entries_lines)
qed

lemma resolve_attack_lines:
  "resolve_attack dmg a b = (a', b', l) \<Longrightarrow> \<forall>x\<in>set l. \<not> loop_line x"
  by (auto simp: resolve_attack_def Let_def)

lemma attack_half_lines:
  assumes h: "attack_half X i Y j = (X', Y', l)"
  shows "\<forall>x\<in>set l. \<not> loop_line x"
proof -
  obtain X1 Y1 l1 Y2 X2 l2 a3 b3 l3 Y4 X4 l4 Y5 X5 l5 where
    1: "fire on_attack X i Y (Some j) = (X1, Y1, l1)" and
    2: "fire on_defend Y1 j X1 (Some i) = (Y2, X2, l2)" and
    3: "resolve_attack (base_damage (X1 ! i)) (X2 ! i) (Y2 ! j) = (a3, b3, l3)" and
    4: "fire on_exit (Y2[j := b3]) j (X2[i := a3]) (Some i) = (Y4, X4, l4)" and
    5: "fire on_enter Y4 (the (active Y4)) X4 (Some i) = (Y5, X5, l5)" and
    res: "(X', Y', l) =
      (if 0 < current_hp b3 then (X2[i := a3], Y2[j := b3], l1 @ l2 @ l3)
       else if active Y4 = None then (X4, Y4, l1 @ l2 @ l3 @ [Defeated (name b3)] @ l4)
       else (X5, Y5, l1 @ l2 @ l3 @ [Defeated (name b3)] @ l4 @ l5))"
    using attack_half_paths[OF h] by blast
  from res fire_lines[OF 1] fire_lines[OF 2] resolve_attack_lines[OF 3] fire_lines[OF 4]
    fire_lines[OF 5]
  show ?thesis by (auto split: if_splits)
qed

text \<open>A pass of the loop body appends nothing, or the header of its turn and exchange lines.\<close>

lemma turn_body_lines:
  "fst (snd (turn_body t s)) = [] \<or>
   (\<exists>a b rest. fst (snd (turn_body t s)) = TurnHeader t a b # rest
                \<and> (\<forall>x\<in>set rest. \<not> loop_line x))"
proof (cases "active (team_a s)")
  case None
  then show ?thesis by (simp add: turn_body_def)
next
  case (Some i)
  show ?thesis
  proof (cases "active (team_b s)")
    case None
    then show ?thesis using Some by (simp add: turn_body_def)
  next
    case j: (Some j)
    obtain A1 B1 l1 where h1: "attack_half (team_a s) i (team_b s) j = (A1, B1, l1)"
      by (cases "attack_half (team_a s) i (team_b s) j") auto
    note n1 = attack_half_lines[OF h1]
    show ?thesis
    proof (cases "active A1 = None \<or> active B1 = None")
      case True
      then show ?thesis using Some j h1 n1
        by (auto simp: turn_body_def Let_def split: option.splits)
    next
      case False
      then obtain i' j' where a: "active A1 = Some i'" "active B1 = Some j'" by auto
      obtain B2 A2 l2 where h2: "attack_half B1 j' A1 i' = (B2, A2, l2)"
        by (cases "attack_half B1 j' A1 i'") auto
      note n2 = attack_half_lines[OF h2]
      show ?thesis using Some j h1 a h2 n1 n2
        by (auto simp: turn_body_def Let_def)
    qed
  qed
qed



lemma no_loop_line_header: "\<forall>x\<in>set l. \<not> loop_line x \<Longrightarrow> TurnHeader n a b \<notin> set l"
  by auto





lemma enter_initial_lines: "\<forall>x\<in>set (snd (enter_initial s)). \<not> loop_line x"
proof -
  obtain A1 B1 l1 where 1: "(case active (team_a s) of
               Some i \<Rightarrow> fire on_enter (team_a s) i (team_b s) (active (team_b s))
             | None \<Rightarrow> (team_a s, team_b s, [])) = (A1, B1, l1)"
    by (metis prod_cases3)
  obtain B2 A2 l2 where 2: "(case active (team_b s) of
                    Some j \<Rightarrow> fire on_enter B1 j A1 (active (team_a s))
                  | None \<Rightarrow> (B1, A1, [])) = (B2, A2, l2)"
    by (metis prod_cases3)
  have n1: "\<forall>x\<in>set l1. \<not> loop_line x"
    using 1 fire_lines by (fastforce split: option.splits)
  have n2: "\<forall>x\<in>set l2. \<not> loop_line x"
    using 2 fire_lines by (fastforce split: option.splits)
  show ?thesis using 1 2 n1 n2 by (auto simp: enter_initial_def Let_def)
qed

lemma run_eq:
  "run s = snd (enter_initial s) @ snd (turn_loop 1 (fst (enter_initial s)))
           @ [verdict (fst (turn_loop 1 (fst (enter_initial s))))]"
  by (simp add: run_def run_state_def split: prod.splits)

lemma verdict_cases: "verdict s = TeamAWins \<or> verdict s = TeamBWins \<or> verdict s = DrawLine"
  by (simp add: verdict_def Let_def)




subsection \<open>Reaching the turn limit\<close>

lemma turn_body_duel:
  assumes "plain_striker A" "plain_striker B" "1 \<le> x" "2 \<le> y"
  shows "fst (turn_body t (duel A x B y)) = duel A (x - 1) B (y - 1)"
    and "snd (snd (turn_body t (duel A x B y)))"
    and "TurnLimit \<notin> set (fst (snd (turn_body t (duel A x B y))))"
  using assms
  by (auto simp: plain_striker_def duel_def at_hp_def turn_body_def attack_half_def fire_def
      apply_abilities_def hook_entries_def resolve_attack_def base_damage_def final_damage_def
      py_int_def Let_def)

lemma turn_loop_duel:
  assumes A: "plain_striker A" and B: "plain_striker B"
  shows "k = 1000 - t \<Longrightarrow> t \<le> 1000 \<Longrightarrow> 1001 - int t \<le> x \<Longrightarrow> 1001 - int t < y \<Longrightarrow>
     fst (turn_loop t (duel A x B y)) = duel A (x - (1001 - int t)) B (y - (1001 - int t))
     \<and> snd (turn_loop t (duel A x B y)) \<noteq> []
     \<and> last (snd (turn_loop t (duel A x B y))) = TurnLimit"
proof (induction k arbitrary: t x y)
  case 0
  then have t: "t = 1000" by simp
  have x: "1 \<le> x" "2 \<le> y" using 0 t by simp_all
  note b = turn_body_duel[OF A B x, of t]
  show ?case using b t by (subst (1 2 3) turn_loop.simps) (simp add: Let_def)
next
  case (Suc k)
  then have t: "t < 1000" "k = 1000 - (t + 1)" "t + 1 \<le> 1000" by simp_all
  have x: "1 \<le> x" "2 \<le> y" using Suc.prems by simp_all
  note b = turn_body_duel[OF A B x, of t]
  have x': "1001 - int (t + 1) \<le> x - 1" "1001 - int (t + 1) < y - 1"
    using Suc.prems by simp_all
  note ih = Suc.IH[OF t(2) t(3) x']
  have eq: "turn_loop t (duel A x B y) =
      (fst (turn_loop (t + 1) (duel A (x - 1) B (y - 1))),
       fst (snd (turn_body t (duel A x B y))) @ snd (turn_loop (t + 1) (duel A (x - 1) B (y - 1))))"
    using b t(1) by (subst turn_loop.simps) (simp add: Let_def)
  have e: "x - 1 - (1001 - int (t + 1)) = x - (1001 - int t)"
       "y - 1 - (1001 - int (t + 1)) = y - (1001 - int t)"
    by simp_all
  note ih' = ih[unfolded e]
  from ih' show ?case
    unfolding eq fst_conv snd_conv
    by (simp only: last_append append_is_Nil_conv simp_thms if_False)
qed

lemma enter_initial_duel:
  assumes "plain_striker A" "plain_striker B"
  shows "enter_initial (duel A x B y) = (duel A x B y, [])"
  using assms
  by (auto simp: plain_striker_def duel_def at_hp_def enter_initial_def fire_def
      apply_abilities_def hook_entries_def Let_def split: option.splits)

lemma run_long_duel:
  assumes A: "plain_striker A" and B: "plain_striker B" and x: "1000 \<le> x" and y: "1000 < y"
  shows "last (run (duel A x B y)) = verdict (duel A (x - 1000) B (y - 1000))
     \<and> last (butlast (run (duel A x B y))) = TurnLimit"
proof -
  have l: "fst (turn_loop 1 (duel A x B y)) = duel A (x - 1000) B (y - 1000)"
    "snd (turn_loop 1 (duel A x B y)) \<noteq> []"
    "last (snd (turn_loop 1 (duel A x B y))) = TurnLimit"
    using turn_loop_duel[OF A B, of 999 1 x y] x y by simp_all
  show ?thesis
    using l by (simp add: run_eq enter_initial_duel[OF A B] butlast_append)
qed

text \<open>
  C5. HP 1000 against HP 2000, both ATK 1 and without abilities: the 1000th turn ends
  with team A's only participant at 0 HP, the counter passes the cap, the line
  \<^verbatim>\<open>"Turn limit reached, ending in a draw."\<close> is appended and the loop is left, and
  the verdict computed at lines 158-165 from the HP of the teams is
  \<^verbatim>\<open>"Team B wins!"\<close>, not a draw.
\<close>

theorem turn_limit_then_team_b_wins:
  "last (butlast (run \<lparr>team_a = make_participants [c_long_a],
                        team_b = make_participants [c_long_b]\<rparr>)) = TurnLimit
   \<and> last (run \<lparr>team_a = make_participants [c_long_a],
                  team_b = make_participants [c_long_b]\<rparr>) = TeamBWins"
proof -
  have A: "plain_striker c_long_a" and B: "plain_striker c_long_b"
    by (simp_all add: plain_striker_def c_long_a_def c_long_b_def ball_def)
  have s: "\<lparr>team_a = make_participants [c_long_a], team_b = make_participants [c_long_b]\<rparr>
      = duel c_long_a 1000 c_long_b 2000"
    by (simp add: duel_def at_hp_def make_participants_def c_long_a_def c_long_b_def ball_def)
  have v: "verdict (duel c_long_a (1000 - 1000) c_long_b (2000 - 1000)) = TeamBWins"
    by (simp add: verdict_def alive_def duel_def at_hp_def)
  show ?thesis
    unfolding s using run_long_duel[OF A B, of 1000 2000] v by simp
qed

text \<open>
  Two entities of HP 2000 and ATK 1 without abilities, so with positive health: after
  1000 turns both still stand, and the transcript holds the turn-limit line.
\<close>

theorem turn_limit_reached_counterexample:
  "TurnLimit \<in> set (run \<lparr>team_a = make_participants [c_long_b],
                          team_b = make_participants [c_long_b]\<rparr>)"
proof -
  have B: "plain_striker c_long_b"
    by (simp add: plain_striker_def c_long_b_def ball_def)
  have s: "\<lparr>team_a = make_participants [c_long_b], team_b = make_participants [c_long_b]\<rparr>
      = duel c_long_b 2000 c_long_b 2000"
    by (simp add: duel_def at_hp_def make_participants_def c_long_b_def ball_def)
  have "last (butlast (run (duel c_long_b 2000 c_long_b 2000))) = TurnLimit"
    using run_long_duel[OF B B, of 2000 2000] by simp
  moreover have "butlast (run (duel c_long_b 2000 c_long_b 2000)) \<noteq> []"
    using turn_loop_duel[OF B B, of 999 1 2000 2000]
    by (simp add: run_eq enter_initial_duel[OF B B] butlast_append)
  ultimately have "TurnLimit \<in> set (butlast (run (duel c_long_b 2000 c_long_b 2000)))"
    using last_in_set by metis
  then show ?thesis unfolding s by (rule in_set_butlastD)
qed

subsection \<open>Without heals every completed turn costs HP\<close>

lemma no_heal_entries:
  "no_heal (inst p) \<Longrightarrow> e \<in> set (hook_entries p w) \<Longrightarrow> entry_type e \<noteq> heal"
  by (cases w) (auto simp: no_heal_def hook_entries_def list_all_iff)

lemma apply_entry_no_heal:
  "apply_entry e a t = (a', t', l) \<Longrightarrow> entry_type e \<noteq> heal \<Longrightarrow> current_hp a' = current_hp a"
  by (auto simp: apply_entry_def Let_def split: ability_type.splits option.splits)

lemma apply_entries_no_heal:
  "apply_entries es a t = (a', t', l) \<Longrightarrow> \<forall>e\<in>set es. entry_type e \<noteq> heal
     \<Longrightarrow> current_hp a' = current_hp a"
proof (induction es arbitrary: a t a' t' l)
  case Nil
  then show ?case by simp
next
  case (Cons e es)
  obtain a1 t1 l1 where e: "apply_entry e a t = (a1, t1, l1)"
    by (cases "apply_entry e a t") auto
  obtain a2 t2 l2 where r: "apply_entries es a1 t1 = (a2, t2, l2)"
    by (cases "apply_entries es a1 t1") auto
  from Cons.prems e r have eq: "a' = a2" by simp
  from apply_entry_no_heal[OF e] Cons.IH[OF r] Cons.prems(2) eq show ?case by simp
qed

lemma live_hp_cong: "map current_hp X' = map current_hp X \<Longrightarrow> live_hp X' = live_hp X"
proof -
  assume "map current_hp X' = map current_hp X"
  then have "map (max 0) (map current_hp X') = map (max 0) (map current_hp X)" by simp
  then show ?thesis by (simp add: live_hp_def comp_def)
qed

lemma fire_other_hp:
  assumes f: "fire w X i Y jo = (X', Y', l)"
  shows "map current_hp Y' = map current_hp Y"
  using fire_other[OF f] by (auto intro: nth_equalityI)

lemma fire_acting_hp:
  assumes f: "fire w X i Y jo = (X', Y', l)" and nh: "i < length X \<longrightarrow> no_heal (inst (X ! i))"
  shows "map current_hp X' = map current_hp X"
proof -
  obtain a' t' where r: "apply_abilities w (X ! i) (map_option (\<lambda>j. Y ! j) jo) = (a', t', l)"
    and X': "X' = X[i := a']"
    using f by (auto simp: fire_def split: prod.splits)
  show ?thesis
  proof (cases "i < length X")
    case True
    with nh have "\<forall>e\<in>set (hook_entries (X ! i) w). entry_type e \<noteq> heal"
      using no_heal_entries by blast
    from apply_entries_no_heal[OF r[unfolded apply_abilities_def] this]
    have "current_hp a' = current_hp (X ! i)" .
    then show ?thesis unfolding X' by (simp add: map_update list_update_same_conv True)
  next
    case False
    then show ?thesis unfolding X' by (simp add: list_update_beyond)
  qed
qed

lemma team_no_heal_roster: "same_roster X X' \<Longrightarrow> team_no_heal X \<Longrightarrow> team_no_heal X'"
  by (simp add: same_roster_def team_no_heal_def)

lemma live_hp_update:
  "j < length Y \<Longrightarrow>
     live_hp (Y[j := b]) = live_hp Y - max 0 (current_hp (Y ! j)) + max 0 (current_hp b)"
proof (induction Y arbitrary: j)
  case Nil
  then show ?case by simp
next
  case (Cons p Y)
  show ?case
  proof (cases j)
    case 0
    then show ?thesis by (simp add: live_hp_def)
  next
    case (Suc j')
    with Cons.prems have "j' < length Y" by simp
    from Cons.IH[OF this] Suc show ?thesis by (simp add: live_hp_def)
  qed
qed

lemma active_Some: "active X = Some i \<Longrightarrow> i < length X \<and> 0 < current_hp (X ! i)"
  by (induction X arbitrary: i) (auto split: if_splits)

lemma live_hp_Cons: "live_hp (p # X) = max 0 (current_hp p) + live_hp X"
  by (simp add: live_hp_def)

lemma live_hp_nonneg: "0 \<le> live_hp X"
  by (induction X) (simp_all add: live_hp_Cons, simp add: live_hp_def)

lemma live_hp_active: "active X = Some i \<Longrightarrow> 1 \<le> live_hp X"
proof (induction X arbitrary: i)
  case Nil
  then show ?case by simp
next
  case (Cons p X)
  show ?case
  proof (cases "0 < current_hp p")
    case True
    then show ?thesis using live_hp_nonneg[of X] by (simp add: live_hp_Cons)
  next
    case False
    with Cons.prems obtain i' where "active X = Some i'" by auto
    from Cons.IH[OF this] show ?thesis by (simp add: live_hp_Cons)
  qed
qed

lemma map_hp_update:
  "current_hp a = current_hp (X ! i) \<Longrightarrow> map current_hp (X[i := a]) = map current_hp X"
  by (cases "i < length X") (simp_all add: map_update list_update_same_conv list_update_beyond)

lemma map_hp_nth:
  "map current_hp X' = map current_hp X \<Longrightarrow> k < length X \<Longrightarrow> current_hp (X' ! k) = current_hp (X ! k)"
  by (metis length_map nth_map)

lemma team_no_heal_nth: "team_no_heal X \<Longrightarrow> k < length X \<longrightarrow> no_heal (inst (X ! k))"
  by (simp add: team_no_heal_def)

lemma attack_half_attacker_hp:
  assumes h: "attack_half X i Y j = (X', Y', l)" and nh: "team_no_heal X"
  shows "map current_hp X' = map current_hp X"
proof -
  obtain X1 Y1 l1 Y2 X2 l2 a3 b3 l3 Y4 X4 l4 Y5 X5 l5 where
    1: "fire on_attack X i Y (Some j) = (X1, Y1, l1)" and
    2: "fire on_defend Y1 j X1 (Some i) = (Y2, X2, l2)" and
    3: "resolve_attack (base_damage (X1 ! i)) (X2 ! i) (Y2 ! j) = (a3, b3, l3)" and
    4: "fire on_exit (Y2[j := b3]) j (X2[i := a3]) (Some i) = (Y4, X4, l4)" and
    5: "fire on_enter Y4 (the (active Y4)) X4 (Some i) = (Y5, X5, l5)" and
    res: "(X', Y', l) =
      (if 0 < current_hp b3 then (X2[i := a3], Y2[j := b3], l1 @ l2 @ l3)
       else if active Y4 = None then (X4, Y4, l1 @ l2 @ l3 @ [Defeated (name b3)] @ l4)
       else (X5, Y5, l1 @ l2 @ l3 @ [Defeated (name b3)] @ l4 @ l5))"
    using attack_half_paths[OF h] by blast
  note r3 = resolve_attack_fields[OF 3]
  have X1: "map current_hp X1 = map current_hp X"
    using fire_acting_hp[OF 1 team_no_heal_nth[OF nh]] .
  have X2: "map current_hp X2 = map current_hp X" using fire_other_hp[OF 2] X1 by (rule trans)
  have "current_hp a3 = current_hp (X2 ! i)" using r3 by simp
  then have "map current_hp (X2[i := a3]) = map current_hp X2" by (rule map_hp_update)
  then have X3: "map current_hp (X2[i := a3]) = map current_hp X" using X2 by (rule trans)
  have X4: "map current_hp X4 = map current_hp X" using fire_other_hp[OF 4] X3 by (rule trans)
  have X5: "map current_hp X5 = map current_hp X" using fire_other_hp[OF 5] X4 by (rule trans)
  show ?thesis
  proof (cases "0 < current_hp b3")
    case True
    with res have "X' = X2[i := a3]" by simp
    then show ?thesis using X3 by (rule ssubst)
  next
    case False
    show ?thesis
    proof (cases "active Y4 = None")
      case True
      with res False have "X' = X4" by simp
      then show ?thesis using X4 by (rule ssubst)
    next
      case n: False
      with res False have "X' = X5" by simp
      then show ?thesis using X5 by (rule ssubst)
    qed
  qed
qed

lemma attack_half_defender_hp:
  assumes h: "attack_half X i Y j = (X', Y', l)" and nh: "team_no_heal Y"
    and j: "j < length Y" and pos: "0 < current_hp (Y ! j)"
  shows "live_hp Y' \<le> live_hp Y - 1"
proof -
  obtain X1 Y1 l1 Y2 X2 l2 a3 b3 l3 Y4 X4 l4 Y5 X5 l5 where
    1: "fire on_attack X i Y (Some j) = (X1, Y1, l1)" and
    2: "fire on_defend Y1 j X1 (Some i) = (Y2, X2, l2)" and
    3: "resolve_attack (base_damage (X1 ! i)) (X2 ! i) (Y2 ! j) = (a3, b3, l3)" and
    4: "fire on_exit (Y2[j := b3]) j (X2[i := a3]) (Some i) = (Y4, X4, l4)" and
    5: "fire on_enter Y4 (the (active Y4)) X4 (Some i) = (Y5, X5, l5)" and
    res: "(X', Y', l) =
      (if 0 < current_hp b3 then (X2[i := a3], Y2[j := b3], l1 @ l2 @ l3)
       else if active Y4 = None then (X4, Y4, l1 @ l2 @ l3 @ [Defeated (name b3)] @ l4)
       else (X5, Y5, l1 @ l2 @ l3 @ [Defeated (name b3)] @ l4 @ l5))"
    using attack_half_paths[OF h] by blast
  note r3 = resolve_attack_fields[OF 3]
  have Y1: "map current_hp Y1 = map current_hp Y" using fire_other_hp[OF 1] .
  have n1: "team_no_heal Y1" using fire_roster(2)[OF 1] nh by (rule team_no_heal_roster)
  have Y2: "map current_hp Y2 = map current_hp Y"
    using fire_acting_hp[OF 2 team_no_heal_nth[OF n1]] Y1 by (rule trans)
  have n2: "team_no_heal Y2" using fire_roster(1)[OF 2] n1 by (rule team_no_heal_roster)
  have len2: "length Y2 = length Y" using Y2 by (metis length_map)
  have hj: "current_hp (Y2 ! j) = current_hp (Y ! j)" using map_hp_nth[OF Y2 j] .
  have d: "1 \<le> final_damage (base_damage (X1 ! i)) (shield_percent (Y2 ! j))"
    by (simp add: final_damage_def)
  have "live_hp (Y2[j := b3]) = live_hp Y2 - max 0 (current_hp (Y2 ! j)) + max 0 (current_hp b3)"
    using live_hp_update j len2 by simp
  moreover have "live_hp Y2 = live_hp Y" using Y2 by (rule live_hp_cong)
  ultimately have Y3: "live_hp (Y2[j := b3]) \<le> live_hp Y - 1"
    using r3 d hj pos by simp
  have "same_roster Y2 (Y2[j := b3])"
    by (rule same_roster_update) (simp_all add: r3)
  then have n3: "team_no_heal (Y2[j := b3])" using n2 by (rule team_no_heal_roster)
  have Y4: "map current_hp Y4 = map current_hp (Y2[j := b3])"
    using fire_acting_hp[OF 4 team_no_heal_nth[OF n3]] .
  have n4: "team_no_heal Y4" using fire_roster(1)[OF 4] n3 by (rule team_no_heal_roster)
  have Y5: "map current_hp Y5 = map current_hp (Y2[j := b3])"
    using fire_acting_hp[OF 5 team_no_heal_nth[OF n4]] Y4 by (rule trans)
  have "live_hp Y4 \<le> live_hp Y - 1" using live_hp_cong[OF Y4] Y3 by simp
  moreover have "live_hp Y5 \<le> live_hp Y - 1" using live_hp_cong[OF Y5] Y3 by simp
  ultimately show ?thesis using res Y3 by (auto split: if_splits)
qed

lemma turn_body_team_b:
  assumes nh: "team_no_heal (team_b s)"
  shows "team_no_heal (team_b (fst (turn_body t s)))"
    and "snd (snd (turn_body t s)) \<Longrightarrow>
           1 \<le> live_hp (team_b (fst (turn_body t s)))
           \<and> live_hp (team_b (fst (turn_body t s))) \<le> live_hp (team_b s) - 1"
proof -
  have "team_no_heal (team_b (fst (turn_body t s))) \<and>
    (snd (snd (turn_body t s)) \<longrightarrow>
           1 \<le> live_hp (team_b (fst (turn_body t s)))
           \<and> live_hp (team_b (fst (turn_body t s))) \<le> live_hp (team_b s) - 1)"
  proof (cases "active (team_a s)")
    case None
    then show ?thesis using nh by (simp add: turn_body_def)
  next
    case (Some i)
    show ?thesis
    proof (cases "active (team_b s)")
      case None
      then show ?thesis using nh Some by (simp add: turn_body_def)
    next
      case j: (Some j)
      obtain A1 B1 l1 where h1: "attack_half (team_a s) i (team_b s) j = (A1, B1, l1)"
        by (cases "attack_half (team_a s) i (team_b s) j") auto
      have "same_roster (team_b s) B1" using attack_half_roster[OF h1] by simp
      then have n1: "team_no_heal B1" using nh by (rule team_no_heal_roster)
      have d1: "live_hp B1 \<le> live_hp (team_b s) - 1"
        using attack_half_defender_hp[OF h1 nh] active_Some[OF j] by simp
      show ?thesis
      proof (cases "active A1 = None \<or> active B1 = None")
        case True
        then show ?thesis using Some j h1 n1
          by (auto simp: turn_body_def Let_def split: option.splits)
      next
        case False
        then obtain i' j' where a: "active A1 = Some i'" "active B1 = Some j'" by auto
        obtain B2 A2 l2 where h2: "attack_half B1 j' A1 i' = (B2, A2, l2)"
          by (cases "attack_half B1 j' A1 i'") auto
        have "same_roster B1 B2" using attack_half_roster[OF h2] by simp
        then have n2: "team_no_heal B2" using n1 by (rule team_no_heal_roster)
        have "live_hp B2 = live_hp B1"
          using attack_half_attacker_hp[OF h2 n1] by (rule live_hp_cong)
        then have "1 \<le> live_hp B2 \<and> live_hp B2 \<le> live_hp (team_b s) - 1"
          using d1 live_hp_active[OF a(2)] by simp
        then show ?thesis using Some j h1 a h2 n2
          by (simp add: turn_body_def Let_def)
      qed
    qed
  qed
  then show "team_no_heal (team_b (fst (turn_body t s)))"
    and "snd (snd (turn_body t s)) \<Longrightarrow>
           1 \<le> live_hp (team_b (fst (turn_body t s)))
           \<and> live_hp (team_b (fst (turn_body t s))) \<le> live_hp (team_b s) - 1"
    by simp_all
qed

lemma turn_body_no_limit: "TurnLimit \<notin> set (fst (snd (turn_body t s)))"
  using turn_body_lines[of t s] by (auto dest!: bspec[where x=TurnLimit])

lemma turn_loop_no_limit:
  "team_no_heal (team_b s) \<Longrightarrow> live_hp (team_b s) \<le> 1001 - int t
     \<Longrightarrow> TurnLimit \<notin> set (snd (turn_loop t s))"
proof (induction t s rule: turn_loop.induct)
  case (1 turn s)
  note nl = turn_body_no_limit[of turn s]
  note b = turn_body_team_b[OF "1.prems"(1), of turn]
  show ?case
  proof (cases "snd (snd (turn_body turn s))")
    case False
    then show ?thesis using nl by (subst turn_loop.simps) (simp add: Let_def)
  next
    case True
    from b(2)[OF True] "1.prems"(2)
    have lo: "1 \<le> live_hp (team_b (fst (turn_body turn s)))"
      and hi: "live_hp (team_b (fst (turn_body turn s))) \<le> 1001 - int (turn + 1)"
      by simp_all
    from lo hi have small: "\<not> 1000 < turn + 1" by simp
    have "TurnLimit \<notin> set (snd (turn_loop (turn + 1) (fst (turn_body turn s))))"
      using "1.IH"[OF refl refl refl _ small b(1) hi] True by simp
    then show ?thesis using nl True small
      by (subst turn_loop.simps) (simp add: Let_def)
  qed
qed

lemma enter_initial_team_b:
  assumes nh: "team_no_heal (team_b s)"
  shows "team_no_heal (team_b (fst (enter_initial s)))
     \<and> live_hp (team_b (fst (enter_initial s))) = live_hp (team_b s)"
proof -
  obtain A1 B1 l1 where 1: "(case active (team_a s) of
               Some i \<Rightarrow> fire on_enter (team_a s) i (team_b s) (active (team_b s))
             | None \<Rightarrow> (team_a s, team_b s, [])) = (A1, B1, l1)"
    by (metis prod_cases3)
  obtain B2 A2 l2 where 2: "(case active (team_b s) of
                    Some j \<Rightarrow> fire on_enter B1 j A1 (active (team_a s))
                  | None \<Rightarrow> (B1, A1, [])) = (B2, A2, l2)"
    by (metis prod_cases3)
  have r1: "same_roster (team_b s) B1 \<and> map current_hp B1 = map current_hp (team_b s)"
  proof (cases "active (team_a s)")
    case None
    with 1 show ?thesis by (simp add: same_roster_refl)
  next
    case (Some i)
    with 1 have f: "fire on_enter (team_a s) i (team_b s) (active (team_b s)) = (A1, B1, l1)"
      by simp
    show ?thesis using fire_roster(2)[OF f] fire_other_hp[OF f] by (rule conjI)
  qed
  have n1: "team_no_heal B1" using conjunct1[OF r1] nh by (rule team_no_heal_roster)
  have r2: "same_roster B1 B2 \<and> map current_hp B2 = map current_hp B1"
  proof (cases "active (team_b s)")
    case None
    with 2 show ?thesis by (simp add: same_roster_refl)
  next
    case (Some j)
    with 2 have f: "fire on_enter B1 j A1 (active (team_a s)) = (B2, A2, l2)"
      by simp
    show ?thesis using fire_roster(1)[OF f] fire_acting_hp[OF f team_no_heal_nth[OF n1]]
      by (rule conjI)
  qed
  have n2: "team_no_heal B2" using conjunct1[OF r2] n1 by (rule team_no_heal_roster)
  have "live_hp B2 = live_hp B1" using conjunct2[OF r2] by (rule live_hp_cong)
  moreover have "live_hp B1 = live_hp (team_b s)" using conjunct2[OF r1] by (rule live_hp_cong)
  ultimately show ?thesis using 1 2 n2 by (simp add: enter_initial_def Let_def)
qed

lemma turn_body_team_a:
  assumes nh: "team_no_heal (team_a s)"
  shows "team_no_heal (team_a (fst (turn_body t s)))"
    and "snd (snd (turn_body t s)) \<Longrightarrow>
           1 \<le> live_hp (team_a s)
           \<and> live_hp (team_a (fst (turn_body t s))) \<le> live_hp (team_a s) - 1"
proof -
  have "team_no_heal (team_a (fst (turn_body t s))) \<and>
    (snd (snd (turn_body t s)) \<longrightarrow>
           1 \<le> live_hp (team_a s)
           \<and> live_hp (team_a (fst (turn_body t s))) \<le> live_hp (team_a s) - 1)"
  proof (cases "active (team_a s)")
    case None
    then show ?thesis using nh by (simp add: turn_body_def)
  next
    case (Some i)
    show ?thesis
    proof (cases "active (team_b s)")
      case None
      then show ?thesis using nh Some by (simp add: turn_body_def)
    next
      case j: (Some j)
      obtain A1 B1 l1 where h1: "attack_half (team_a s) i (team_b s) j = (A1, B1, l1)"
        by (cases "attack_half (team_a s) i (team_b s) j") auto
      have "same_roster (team_a s) A1" using attack_half_roster[OF h1] by simp
      then have n1: "team_no_heal A1" using nh by (rule team_no_heal_roster)
      have e1: "live_hp A1 = live_hp (team_a s)"
        using attack_half_attacker_hp[OF h1 nh] by (rule live_hp_cong)
      show ?thesis
      proof (cases "active A1 = None \<or> active B1 = None")
        case True
        then show ?thesis using Some j h1 n1
          by (auto simp: turn_body_def Let_def split: option.splits)
      next
        case False
        then obtain i' j' where a: "active A1 = Some i'" "active B1 = Some j'" by auto
        obtain B2 A2 l2 where h2: "attack_half B1 j' A1 i' = (B2, A2, l2)"
          by (cases "attack_half B1 j' A1 i'") auto
        have "same_roster A1 A2" using attack_half_roster[OF h2] by simp
        then have n2: "team_no_heal A2" using n1 by (rule team_no_heal_roster)
        have "live_hp A2 \<le> live_hp A1 - 1"
          using attack_half_defender_hp[OF h2 n1] active_Some[OF a(1)] by simp
        then have "1 \<le> live_hp (team_a s) \<and> live_hp A2 \<le> live_hp (team_a s) - 1"
          using e1 live_hp_active[OF Some] by simp
        then show ?thesis using Some j h1 a h2 n2
          by (simp add: turn_body_def Let_def)
      qed
    qed
  qed
  then show "team_no_heal (team_a (fst (turn_body t s)))"
    and "snd (snd (turn_body t s)) \<Longrightarrow>
           1 \<le> live_hp (team_a s)
           \<and> live_hp (team_a (fst (turn_body t s))) \<le> live_hp (team_a s) - 1"
    by simp_all
qed

lemma turn_loop_no_limit_a:
  "team_no_heal (team_a s) \<Longrightarrow> live_hp (team_a s) \<le> 1000 - int t
     \<Longrightarrow> TurnLimit \<notin> set (snd (turn_loop t s))"
proof (induction t s rule: turn_loop.induct)
  case (1 turn s)
  note nl = turn_body_no_limit[of turn s]
  note b = turn_body_team_a[OF "1.prems"(1), of turn]
  show ?case
  proof (cases "snd (snd (turn_body turn s))")
    case False
    then show ?thesis using nl by (subst turn_loop.simps) (simp add: Let_def)
  next
    case True
    from b(2)[OF True] "1.prems"(2)
    have lo: "1 \<le> live_hp (team_a s)"
      and hi: "live_hp (team_a (fst (turn_body turn s))) \<le> 1000 - int (turn + 1)"
      by simp_all
    from lo "1.prems"(2) have small: "\<not> 1000 < turn + 1" by simp
    have "TurnLimit \<notin> set (snd (turn_loop (turn + 1) (fst (turn_body turn s))))"
      using "1.IH"[OF refl refl refl _ small b(1) hi] True by simp
    then show ?thesis using nl True small
      by (subst turn_loop.simps) (simp add: Let_def)
  qed
qed

lemma enter_initial_team_a:
  assumes nh: "team_no_heal (team_a s)"
  shows "team_no_heal (team_a (fst (enter_initial s)))
     \<and> live_hp (team_a (fst (enter_initial s))) = live_hp (team_a s)"
proof -
  obtain A1 B1 l1 where 1: "(case active (team_a s) of
               Some i \<Rightarrow> fire on_enter (team_a s) i (team_b s) (active (team_b s))
             | None \<Rightarrow> (team_a s, team_b s, [])) = (A1, B1, l1)"
    by (metis prod_cases3)
  obtain B2 A2 l2 where 2: "(case active (team_b s) of
                    Some j \<Rightarrow> fire on_enter B1 j A1 (active (team_a s))
                  | None \<Rightarrow> (B1, A1, [])) = (B2, A2, l2)"
    by (metis prod_cases3)
  have r1: "same_roster (team_a s) A1 \<and> map current_hp A1 = map current_hp (team_a s)"
  proof (cases "active (team_a s)")
    case None
    with 1 show ?thesis by (simp add: same_roster_refl)
  next
    case (Some i)
    with 1 have f: "fire on_enter (team_a s) i (team_b s) (active (team_b s)) = (A1, B1, l1)"
      by simp
    show ?thesis using fire_roster(1)[OF f] fire_acting_hp[OF f team_no_heal_nth[OF nh]]
      by (rule conjI)
  qed
  have n1: "team_no_heal A1" using conjunct1[OF r1] nh by (rule team_no_heal_roster)
  have r2: "same_roster A1 A2 \<and> map current_hp A2 = map current_hp A1"
  proof (cases "active (team_b s)")
    case None
    with 2 show ?thesis by (simp add: same_roster_refl)
  next
    case (Some j)
    with 2 have f: "fire on_enter B1 j A1 (active (team_a s)) = (B2, A2, l2)"
      by simp
    show ?thesis using fire_roster(2)[OF f] fire_other_hp[OF f] by (rule conjI)
  qed
  have n2: "team_no_heal A2" using conjunct1[OF r2] n1 by (rule team_no_heal_roster)
  have "live_hp A2 = live_hp A1" using conjunct2[OF r2] by (rule live_hp_cong)
  moreover have "live_hp A1 = live_hp (team_a s)" using conjunct2[OF r1] by (rule live_hp_cong)
  ultimately show ?thesis using 1 2 n2 by (simp add: enter_initial_def Let_def)
qed

lemma make_participants_no_heal:
  "\<forall>b\<in>set (take 3 t). no_heal b \<Longrightarrow> team_no_heal (make_participants t)"
  unfolding team_no_heal_def make_participants_def
  by (metis (no_types, lifting) length_map nth_map nth_mem participant.select_convs(1))

lemma make_participants_live_hp:
  "live_hp (make_participants t) = (\<Sum>b\<leftarrow>take 3 t. max 0 (health b))"
  by (simp add: live_hp_def make_participants_def comp_def)

lemma run_no_limit:
  "TurnLimit \<notin> set (snd (turn_loop 1 (fst (enter_initial s)))) \<Longrightarrow> TurnLimit \<notin> set (run s)"
  using enter_initial_lines[of s] verdict_cases[of "fst (turn_loop 1 (fst (enter_initial s)))"]
  by (auto simp: run_eq dest!: bspec[where x=TurnLimit])

text \<open>
  C6, amended. The cap of 1000 turns can be reached, also by teams of positive health
  (two entities of HP 2000 and ATK 1 above). It is not reached, and the line
  \<^verbatim>\<open>"Turn limit reached, ending in a draw."\<close> is in no transcript, when the first
  three entities of team B have no heal ability and their positive health sums to at
  most 1000, or when the first three entities of team A have no heal ability and
  their positive health sums to at most 999: every turn that is completed costs each
  such team at least 1 HP.
\<close>

theorem turn_limit_not_reached:
  assumes c: "TeamBattle ta tb = Inr s"
    and h: "((\<forall>b\<in>set (take 3 tb). no_heal b) \<and> (\<Sum>b\<leftarrow>take 3 tb. max 0 (health b)) \<le> 1000)
          \<or> ((\<forall>b\<in>set (take 3 ta). no_heal b) \<and> (\<Sum>b\<leftarrow>take 3 ta. max 0 (health b)) \<le> 999)"
  shows "TurnLimit \<notin> set (run s)"
proof -
  from c have s: "team_a s = make_participants ta" "team_b s = make_participants tb"
    by (auto simp: TeamBattle_def split: if_splits)
  from h show ?thesis
  proof
    assume b: "(\<forall>b\<in>set (take 3 tb). no_heal b) \<and> (\<Sum>b\<leftarrow>take 3 tb. max 0 (health b)) \<le> 1000"
    then have "team_no_heal (team_b s)" and "live_hp (team_b s) \<le> 1000"
      using s make_participants_no_heal make_participants_live_hp by simp_all
    with enter_initial_team_b[of s]
    have "team_no_heal (team_b (fst (enter_initial s)))"
      and "live_hp (team_b (fst (enter_initial s))) \<le> 1001 - int 1"
      by simp_all
    then have "TurnLimit \<notin> set (snd (turn_loop 1 (fst (enter_initial s))))"
      by (rule turn_loop_no_limit)
    then show ?thesis by (rule run_no_limit)
  next
    assume a: "(\<forall>b\<in>set (take 3 ta). no_heal b) \<and> (\<Sum>b\<leftarrow>take 3 ta. max 0 (health b)) \<le> 999"
    then have "team_no_heal (team_a s)" and "live_hp (team_a s) \<le> 999"
      using s make_participants_no_heal make_participants_live_hp by simp_all
    with enter_initial_team_a[of s]
    have "team_no_heal (team_a (fst (enter_initial s)))"
      and "live_hp (team_a (fst (enter_initial s))) \<le> 1000 - int 1"
      by simp_all
    then have "TurnLimit \<notin> set (snd (turn_loop 1 (fst (enter_initial s))))"
      by (rule turn_loop_no_limit_a)
    then show ?thesis by (rule run_no_limit)
  qed
qed

theorem turn_limit_not_reached_witness:
  "TeamBattle [c_negmult] [c_shielder]
     = Inr \<lparr>team_a = make_participants [c_negmult], team_b = make_participants [c_shielder]\<rparr>
   \<and> no_heal c_shielder \<and> max 0 (health c_shielder) \<le> 1000
   \<and> TurnLimit \<notin> set (run \<lparr>team_a = make_participants [c_negmult],
                               team_b = make_participants [c_shielder]\<rparr>)"
  using turn_limit_not_reached
          [of "[c_negmult]" "[c_shielder]"
              "\<lparr>team_a = make_participants [c_negmult], team_b = make_participants [c_shielder]\<rparr>"]
  by (simp add: TeamBattle_def no_heal_def c_shielder_def ball_def)

end
